theory Spec2Isabelle
  imports Complex_Main
begin

section \<open>The AGI economy simulator: data model\<close>

text \<open>
  The engine is the class \<open>Simulation\<close> of \<open>src/worker/index.js\<close> together with the
  state-changing part of \<open>handleStep\<close>.

  A JavaScript number is an IEEE 754 double: a real number that 53 bits represent,
  an infinity or NaN (\<open>jsnum\<close>). Every arithmetic operation is the exact operation
  followed by rounding to the nearest double, ties to even (\<open>dbl\<close>), with overflow to
  an infinity (\<open>fl\<close>). Zero has no sign in the model. The wealth and the income of an
  agent are such numbers. The happiness is a real number: its updates add and
  subtract constants, halve and clamp, and from a finite value none of them gives
  an infinity or NaN; they round with \<open>dbl\<close>. A literal such as \<open>0.3\<close> is the double
  nearest to it, \<open>dbl 0.3\<close>.
\<close>

datatype agent_type = Worker | Capitalist | Government

datatype strategy_kind = Normal | Save | Spend | Invest | Regulate

datatype jsnum = Num real | NaN | PosInfinity | NegInfinity

record agent =
  id_agent :: int
  type_agent :: agent_type
  wealth :: jsnum
  income :: jsnum
  happiness :: real
  strategy :: strategy_kind

text \<open>
  The body of a request to initialize: each recognised key is absent (\<open>None\<close>) or
  holds a number. \<open>this.params\<close> has every key.
\<close>

record request_params =
  req_nAgents :: "real option"
  req_agiBoost :: "real option"
  req_workerRationality :: "real option"
  req_herdEffect :: "real option"
  req_ubi :: "real option"
  req_computeTax :: "real option"
  req_workHours :: "real option"

record params =
  nAgents :: real
  agiBoost :: real
  workerRationality :: real
  herdEffect :: real
  ubi :: real
  computeTax :: real
  workHours :: real

record history =
  steps :: "nat list"
  gini :: "jsnum list"
  velocity :: "jsnum list"
  workerHappiness :: "jsnum list"
  capitalistHappiness :: "jsnum list"

record simulation =
  params :: params
  step :: nat
  agiDeployed :: bool
  agents :: "agent list"
  history :: history

text \<open>The body of a request to advance: \<open>steps\<close> absent or a number, \<open>deployAGI\<close> truthy or not.\<close>

record step_request =
  req_steps :: "real option"
  req_deployAGI :: bool

datatype error = NoSimulationRunning

section \<open>Numbers\<close>

text \<open>\<open>rne\<close> rounds to the nearest integer, a tie to the even one.\<close>

definition rne :: "real \<Rightarrow> int" where
  "rne x =
     (let f = \<lfloor>x\<rfloor>; d = x - of_int f
      in if d < 1 / 2 then f else if 1 / 2 < d then f + 1 else if even f then f else f + 1)"

text \<open>\<open>bexp x\<close> is the binary exponent of a positive \<open>x\<close>: \<open>2 ^ bexp x \<le> x < 2 ^ (bexp x + 1)\<close>.\<close>

function bexp :: "real \<Rightarrow> int" where
  "bexp x = (if 2 \<le> x then bexp (x / 2) + 1 else if 0 < x \<and> x < 1 then bexp (x * 2) - 1 else 0)"
  by pat_completeness auto
termination
proof (relation "measure (\<lambda>x. if 1 \<le> x then nat \<lfloor>x\<rfloor> else nat \<lceil>1 / x\<rceil>)")
  show "wf (measure (\<lambda>x::real. if 1 \<le> x then nat \<lfloor>x\<rfloor> else nat \<lceil>1 / x\<rceil>))"
    by simp
next
  fix x :: real
  assume "2 \<le> x"
  then have "\<lfloor>x / 2\<rfloor> < \<lfloor>x\<rfloor>" and "0 \<le> \<lfloor>x / 2\<rfloor>"
    by linarith+
  with \<open>2 \<le> x\<close>
  show "(x / 2, x) \<in> measure (\<lambda>x. if 1 \<le> x then nat \<lfloor>x\<rfloor> else nat \<lceil>1 / x\<rceil>)"
    by simp
next
  fix x :: real
  assume a: "\<not> 2 \<le> x" "0 < x \<and> x < 1"
  then have big: "1 < 1 / x" by simp
  show "(x * 2, x) \<in> measure (\<lambda>x. if 1 \<le> x then nat \<lfloor>x\<rfloor> else nat \<lceil>1 / x\<rceil>)"
  proof (cases "1 \<le> x * 2")
    case True
    with a have "\<lfloor>x * 2\<rfloor> = 1" by linarith
    moreover from big have "2 \<le> \<lceil>1 / x\<rceil>" by linarith
    ultimately show ?thesis using True a by simp
  next
    case False
    then have "2 < 1 / x" using a by (simp add: field_simps)
    moreover have "1 / (x * 2) = (1 / x) / 2" by simp
    ultimately have "\<lceil>1 / (x * 2)\<rceil> < \<lceil>1 / x\<rceil>" by linarith
    moreover have "0 < \<lceil>1 / x\<rceil>" using big by linarith
    ultimately show ?thesis using False a by simp
  qed
qed

declare bexp.simps [simp del]

text \<open>
  \<open>dbl x\<close> is the double nearest to \<open>x\<close>, the exponent range unbounded above: 53 bits
  from the binary exponent of \<open>x\<close> down, but never below \<open>2 ^ -1074\<close> (the
  subnormal numbers). \<open>fl x\<close> is the result of an operation whose exact value is
  \<open>x\<close>: \<open>dbl x\<close>, or an infinity from \<open>2 ^ 1024\<close> on.
\<close>

definition dbl :: "real \<Rightarrow> real" where
  "dbl x =
     (if x = 0 then 0
      else let e = max (bexp \<bar>x\<bar>) (- 1022);
               q = 2 powi (e - 52)
           in sgn x * (of_int (rne (\<bar>x\<bar> / q)) * q))"

definition fl :: "real \<Rightarrow> jsnum" where
  "fl x =
     (let y = dbl x
      in if 2 powi 1024 \<le> \<bar>y\<bar> then (if 0 < y then PosInfinity else NegInfinity) else Num y)"

text \<open>
  The operations \<open>+\<close>, \<open>-\<close>, \<open>*\<close>, \<open>/\<close>, \<open>></\<close>, \<open>===\<close> and \<open>Math.exp\<close> on numbers.
  A quotient by zero has the sign of the dividend. \<open>Math.exp\<close> is taken as correctly
  rounded, which the language does not promise; the statements below use its sign only.
\<close>

fun js_neg :: "jsnum \<Rightarrow> jsnum" where
  "js_neg (Num a) = Num (- a)"
| "js_neg NaN = NaN"
| "js_neg PosInfinity = NegInfinity"
| "js_neg NegInfinity = PosInfinity"

fun js_add :: "jsnum \<Rightarrow> jsnum \<Rightarrow> jsnum" where
  "js_add (Num a) (Num b) = fl (a + b)"
| "js_add NaN _ = NaN"
| "js_add _ NaN = NaN"
| "js_add PosInfinity NegInfinity = NaN"
| "js_add NegInfinity PosInfinity = NaN"
| "js_add PosInfinity _ = PosInfinity"
| "js_add _ PosInfinity = PosInfinity"
| "js_add NegInfinity _ = NegInfinity"
| "js_add _ NegInfinity = NegInfinity"

definition js_sub :: "jsnum \<Rightarrow> jsnum \<Rightarrow> jsnum" where
  "js_sub a b = js_add a (js_neg b)"

fun js_mul :: "jsnum \<Rightarrow> jsnum \<Rightarrow> jsnum" where
  "js_mul (Num a) (Num b) = fl (a * b)"
| "js_mul NaN _ = NaN"
| "js_mul _ NaN = NaN"
| "js_mul PosInfinity (Num b) = (if b = 0 then NaN else if 0 < b then PosInfinity else NegInfinity)"
| "js_mul NegInfinity (Num b) = (if b = 0 then NaN else if 0 < b then NegInfinity else PosInfinity)"
| "js_mul (Num a) PosInfinity = (if a = 0 then NaN else if 0 < a then PosInfinity else NegInfinity)"
| "js_mul (Num a) NegInfinity = (if a = 0 then NaN else if 0 < a then NegInfinity else PosInfinity)"
| "js_mul PosInfinity PosInfinity = PosInfinity"
| "js_mul NegInfinity NegInfinity = PosInfinity"
| "js_mul PosInfinity NegInfinity = NegInfinity"
| "js_mul NegInfinity PosInfinity = NegInfinity"

fun js_div :: "jsnum \<Rightarrow> jsnum \<Rightarrow> jsnum" where
  "js_div (Num a) (Num b) =
     (if b = 0 then (if a = 0 then NaN else if 0 < a then PosInfinity else NegInfinity)
      else fl (a / b))"
| "js_div NaN _ = NaN"
| "js_div _ NaN = NaN"
| "js_div (Num a) PosInfinity = Num 0"
| "js_div (Num a) NegInfinity = Num 0"
| "js_div PosInfinity (Num b) = (if 0 \<le> b then PosInfinity else NegInfinity)"
| "js_div NegInfinity (Num b) = (if 0 \<le> b then NegInfinity else PosInfinity)"
| "js_div PosInfinity PosInfinity = NaN"
| "js_div PosInfinity NegInfinity = NaN"
| "js_div NegInfinity PosInfinity = NaN"
| "js_div NegInfinity NegInfinity = NaN"

fun js_gt :: "jsnum \<Rightarrow> jsnum \<Rightarrow> bool" where
  "js_gt (Num a) (Num b) = (b < a)"
| "js_gt NaN _ = False"
| "js_gt _ NaN = False"
| "js_gt PosInfinity PosInfinity = False"
| "js_gt PosInfinity _ = True"
| "js_gt _ PosInfinity = False"
| "js_gt NegInfinity _ = False"
| "js_gt _ NegInfinity = True"

definition js_le :: "jsnum \<Rightarrow> jsnum \<Rightarrow> bool" where
  "js_le a b = (a \<noteq> NaN \<and> b \<noteq> NaN \<and> \<not> js_gt a b)"

definition js_eq :: "jsnum \<Rightarrow> jsnum \<Rightarrow> bool" where
  "js_eq a b = (a \<noteq> NaN \<and> a = b)"

fun js_exp :: "jsnum \<Rightarrow> jsnum" where
  "js_exp (Num a) = fl (exp a)"
| "js_exp NaN = NaN"
| "js_exp PosInfinity = PosInfinity"
| "js_exp NegInfinity = Num 0"

text \<open>A result that is not negative: a number that is a double, or the positive infinity.\<close>

definition nonneg_result :: "jsnum \<Rightarrow> bool" where
  "nonneg_result r = (r = PosInfinity \<or> (\<exists>y. r = Num y \<and> 0 \<le> y \<and> dbl y = y))"

section \<open>Initialization\<close>

text \<open>
  The constructor (lines 7 to 31) builds \<open>this.params\<close> from seven defaults written
  with \<open>||\<close> and then spreads the raw input over them. \<open>or_default v d\<close> is
  \<open>v || d\<close>: an absent key and the number 0 are falsy. \<open>spread v x\<close> is the effect of
  \<open>...params\<close> on a key whose value so far is \<open>x\<close>: a key present in the input
  overrides it.
\<close>

definition or_default :: "real option \<Rightarrow> real \<Rightarrow> real" where
  "or_default v d = (case v of None \<Rightarrow> d | Some x \<Rightarrow> if x = 0 then d else x)"

definition spread :: "real option \<Rightarrow> real \<Rightarrow> real" where
  "spread v x = (case v of None \<Rightarrow> x | Some y \<Rightarrow> y)"

definition make_params :: "request_params \<Rightarrow> params" where
  "make_params b =
     \<lparr> nAgents = spread (req_nAgents b) (or_default (req_nAgents b) 1000),
       agiBoost = spread (req_agiBoost b) (or_default (req_agiBoost b) 5.0),
       workerRationality =
         spread (req_workerRationality b) (or_default (req_workerRationality b) (dbl 0.4)),
       herdEffect = spread (req_herdEffect b) (or_default (req_herdEffect b) 0.5),
       ubi = spread (req_ubi b) (or_default (req_ubi b) 0),
       computeTax = spread (req_computeTax b) (or_default (req_computeTax b) 0),
       workHours = spread (req_workHours b) (or_default (req_workHours b) 4) \<rparr>"

text \<open>
  \<open>initAgents\<close> (lines 33 to 72). \<open>ids_below a b\<close> lists the values that \<open>i\<close> takes in
  \<open>for (let i = a; i < b; i++)\<close>, for an integer \<open>a\<close> and a number \<open>b\<close>.
  \<open>Math.random()\<close> is a sequence \<open>rnd\<close> of draws given from outside; \<open>k\<close> counts the
  draws made so far, two for each worker and each capitalist, the wealth's first.
  The loop bounds are \<open>Math.floor\<close> of a rounded product.
\<close>

definition ids_below :: "int \<Rightarrow> real \<Rightarrow> int list" where
  "ids_below a b = [a .. \<lceil>b\<rceil> - 1]"

fun make_workers :: "(nat \<Rightarrow> real) \<Rightarrow> nat \<Rightarrow> int list \<Rightarrow> agent list" where
  "make_workers rnd k [] = []"
| "make_workers rnd k (i # js) =
     \<lparr> id_agent = i, type_agent = Worker,
       wealth = js_exp (js_add (Num 2) (js_mul (Num (rnd k)) (Num 0.5))),
       income = js_add (Num 100) (js_mul (js_sub (Num (rnd (k + 1))) (Num 0.5)) (Num 40)),
       happiness = dbl 0.6, strategy = Normal \<rparr> # make_workers rnd (k + 2) js"

fun make_capitalists :: "(nat \<Rightarrow> real) \<Rightarrow> nat \<Rightarrow> int list \<Rightarrow> agent list" where
  "make_capitalists rnd k [] = []"
| "make_capitalists rnd k (i # js) =
     \<lparr> id_agent = i, type_agent = Capitalist,
       wealth = js_exp (js_add (Num 6) (js_mul (Num (rnd k)) (Num 1.5))),
       income = js_add (Num 500) (js_mul (js_sub (Num (rnd (k + 1))) (Num 0.5)) (Num 400)),
       happiness = dbl 0.7, strategy = Invest \<rparr> # make_capitalists rnd (k + 2) js"

definition make_government :: "int \<Rightarrow> agent" where
  "make_government i =
     \<lparr> id_agent = i, type_agent = Government, wealth = Num 1000000, income = Num 0,
       happiness = 0.5, strategy = Regulate \<rparr>"

definition initAgents :: "(nat \<Rightarrow> real) \<Rightarrow> real \<Rightarrow> agent list" where
  "initAgents rnd n =
     (let workers = make_workers rnd 0 (ids_below 0 (of_int \<lfloor>dbl (n * dbl 0.8)\<rfloor>));
          capitalists = make_capitalists rnd (2 * length workers)
            (ids_below \<lfloor>dbl (n * dbl 0.8)\<rfloor> (of_int \<lfloor>dbl (n * dbl 0.999)\<rfloor>));
          government = map make_government (ids_below \<lfloor>dbl (n * dbl 0.999)\<rfloor> n)
      in workers @ capitalists @ government)"

definition empty_history :: history where
  "empty_history =
     \<lparr> steps = [], gini = [], velocity = [], workerHappiness = [],
       capitalistHappiness = [] \<rparr>"

definition Simulation :: "request_params \<Rightarrow> (nat \<Rightarrow> real) \<Rightarrow> simulation" where
  "Simulation b rnd =
     (let p = make_params b
      in \<lparr> params = p, step = 0, agiDeployed = False,
           agents = initAgents rnd (nAgents p), history = empty_history \<rparr>)"

section \<open>Metrics\<close>

text \<open>
  \<open>calculateGini\<close> (lines 74 to 86): the wealths sorted ascending with the comparator
  \<open>a - b\<close>, their sum by \<open>reduce\<close> from 0, the early return on a zero sum, the loop
  over the indices \<open>0 .. n - 1\<close> and the final quotient. \<open>js_sort\<close> is a stable
  insertion sort by \<open>></\<close>; the order that a sort gives to a NaN does not matter, for
  then the sum and the result are NaN whatever the order. The coefficient
  \<open>2 * (i + 1) - n - 1\<close> is a small whole number, which doubles compute exactly.
\<close>

fun js_insort :: "jsnum \<Rightarrow> jsnum list \<Rightarrow> jsnum list" where
  "js_insort x [] = [x]"
| "js_insort x (y # ys) = (if js_gt x y then y # js_insort x ys else x # y # ys)"

definition js_sort :: "jsnum list \<Rightarrow> jsnum list" where
  "js_sort xs = foldr js_insort xs []"

definition gini_loop :: "jsnum list \<Rightarrow> jsnum" where
  "gini_loop wealths =
     foldl (\<lambda>g i. js_add g
         (js_mul (Num (2 * (real i + 1) - real (length wealths) - 1)) (wealths ! i)))
       (Num 0) [0 ..< length wealths]"

definition calculateGini :: "agent list \<Rightarrow> jsnum" where
  "calculateGini ags =
     (let wealths = js_sort (map wealth ags);
          n = length wealths;
          sum = foldl js_add (Num 0) wealths
      in if js_eq sum (Num 0) then Num 0
         else js_div (gini_loop wealths) (js_mul (Num (real n)) sum))"

text \<open>\<open>calculateVelocity\<close> (lines 88 to 92).\<close>

definition calculateVelocity :: "agent list \<Rightarrow> jsnum" where
  "calculateVelocity ags =
     (let totalWealth = foldl (\<lambda>sum a. js_add sum (wealth a)) (Num 0) ags;
          totalIncome = foldl (\<lambda>sum a. js_add sum (income a)) (Num 0) ags
      in if js_gt totalWealth (Num 0) then js_mul (js_div totalIncome totalWealth) (Num 10)
         else Num 0)"

section \<open>One step\<close>

text \<open>
  \<open>runStep\<close> (lines 94 to 164). The arrays \<open>workers\<close> and \<open>capitalists\<close> hold the very
  objects of \<open>this.agents\<close>, and no step changes an agent's type, so a \<open>forEach\<close> over
  one of them is a map over the agents that touches those of that type.

  The strategy phase (lines 101 to 121): the \<open>switch\<close> has no case for \<open>normal\<close> and
  \<open>regulate\<close>; the clamp of the happiness follows it for every agent.
\<close>

definition strategy_phase :: "agent \<Rightarrow> agent" where
  "strategy_phase a =
     (let a1 =
        (case strategy a of
           Save \<Rightarrow> a\<lparr> wealth := js_add (wealth a) (js_mul (income a) (Num (dbl 0.3))),
                      happiness := max 0 (dbl (happiness a - dbl 0.005)) \<rparr>
         | Spend \<Rightarrow>
             (if js_gt (wealth a) (Num 10)
              then a\<lparr> wealth := js_mul (wealth a) (Num (dbl 0.95)),
                      happiness := min 1 (dbl (happiness a + dbl 0.01)) \<rparr>
              else a)
         | Invest \<Rightarrow>
             (if type_agent a = Capitalist
              then a\<lparr> wealth := js_mul (wealth a) (Num (dbl 1.02)),
                      income := js_mul (income a) (Num (dbl 1.002)) \<rparr>
              else a)
         | _ \<Rightarrow> a)
      in a1\<lparr> happiness := max 0 (min 1 (happiness a1)) \<rparr>)"

text \<open>The universal basic income (lines 126 to 131).\<close>

definition apply_ubi :: "params \<Rightarrow> agent \<Rightarrow> agent" where
  "apply_ubi p w =
     (if type_agent w = Worker
      then w\<lparr> income := js_add (income w) (Num (ubi p)),
              happiness := min 1 (dbl (happiness w + dbl 0.005)) \<rparr>
      else w)"

text \<open>
  The compute tax (lines 134 to 150). The revenue is divided by the number of
  workers; with no worker the quotient is added to nobody.
\<close>

definition tax_of :: "params \<Rightarrow> agent \<Rightarrow> jsnum" where
  "tax_of p c =
     (let agiSurplus = js_mul (income c) (js_sub (Num 1) (js_div (Num 1) (Num (agiBoost p))))
      in js_mul agiSurplus (Num (computeTax p)))"

definition apply_tax :: "params \<Rightarrow> agent \<Rightarrow> agent" where
  "apply_tax p c =
     (if type_agent c = Capitalist
      then c\<lparr> income := js_sub (income c) (tax_of p c),
              happiness := max 0 (dbl (happiness c - dbl 0.003)) \<rparr>
      else c)"

definition add_redistribution :: "jsnum \<Rightarrow> agent \<Rightarrow> agent" where
  "add_redistribution redistribution w =
     (if type_agent w = Worker then w\<lparr> income := js_add (income w) redistribution \<rparr> else w)"

definition compute_tax_phase :: "params \<Rightarrow> agent list \<Rightarrow> agent list" where
  "compute_tax_phase p ags =
     (let capitalists = filter (\<lambda>a. type_agent a = Capitalist) ags;
          workers = filter (\<lambda>a. type_agent a = Worker) ags;
          taxRevenue = foldl (\<lambda>r c. js_add r (tax_of p c)) (Num 0) capitalists;
          taxed = map (apply_tax p) ags;
          redistribution = js_div taxRevenue (Num (real (length workers)))
      in map (add_redistribution redistribution) taxed)"

definition policy_phase :: "params \<Rightarrow> bool \<Rightarrow> agent list \<Rightarrow> agent list" where
  "policy_phase p deployed ags =
     (if 0 < ubi p \<or> (0 < computeTax p \<and> deployed)
      then
        (let ags1 = (if 0 < ubi p then map (apply_ubi p) ags else ags)
         in if 0 < computeTax p \<and> deployed then compute_tax_phase p ags1 else ags1)
      else ags)"

text \<open>The history sample (lines 154 to 163).\<close>

definition mean_happiness :: "agent_type \<Rightarrow> agent list \<Rightarrow> jsnum" where
  "mean_happiness t ags =
     (let cohort = filter (\<lambda>a. type_agent a = t) ags
      in js_div (foldl (\<lambda>sum a. js_add sum (Num (happiness a))) (Num 0) cohort)
           (Num (real (length cohort))))"

definition sample_history :: "nat \<Rightarrow> agent list \<Rightarrow> history \<Rightarrow> history" where
  "sample_history st ags h =
     h\<lparr> steps := steps h @ [st],
        gini := gini h @ [calculateGini ags],
        velocity := velocity h @ [calculateVelocity ags],
        workerHappiness := workerHappiness h @ [mean_happiness Worker ags],
        capitalistHappiness := capitalistHappiness h @ [mean_happiness Capitalist ags] \<rparr>"

definition runStep :: "simulation \<Rightarrow> simulation" where
  "runStep s =
     (let st = step s + 1;
          ags1 = map strategy_phase (agents s);
          ags2 = policy_phase (params s) (agiDeployed s) ags1;
          h = (if st mod 5 = 0 then sample_history st ags2 (history s) else history s)
      in s\<lparr> step := st, agents := ags2, history := h \<rparr>)"

section \<open>Deployment and the advance request\<close>

text \<open>\<open>deployAGI\<close> (lines 166 to 179).\<close>

definition deploy_agent :: "real \<Rightarrow> agent \<Rightarrow> agent" where
  "deploy_agent boost a =
     (if type_agent a = Capitalist
      then a\<lparr> income := js_mul (income a) (Num boost), wealth := js_mul (wealth a) (Num 1.5) \<rparr>
      else if type_agent a = Worker
      then a\<lparr> income := js_mul (income a) (Num (dbl 0.3)),
              happiness := dbl (happiness a * 0.5) \<rparr>
      else a)"

definition deployAGI :: "simulation \<Rightarrow> simulation" where
  "deployAGI s =
     s\<lparr> agiDeployed := True, agents := map (deploy_agent (agiBoost (params s))) (agents s) \<rparr>"

text \<open>
  \<open>handleStep\<close> (lines 236 to 275), its effect on the simulation: the error when
  there is none, \<open>body.steps || 5\<close> calls of \<open>runStep\<close> (the loop
  \<open>for (let i = 0; i < steps; i++)\<close> runs \<open>\<lceil>steps\<rceil>\<close> times, not at all for a negative
  number), then the deployment when it is asked for and has not happened (lines 249
  to 251). The deployment has no caller but this one.
\<close>

fun runSteps :: "nat \<Rightarrow> simulation \<Rightarrow> simulation" where
  "runSteps 0 s = s"
| "runSteps (Suc n) s = runSteps n (runStep s)"

definition step_count :: "real option \<Rightarrow> nat" where
  "step_count v = nat \<lceil>or_default v 5\<rceil>"

definition requestDeploy :: "bool \<Rightarrow> simulation \<Rightarrow> simulation" where
  "requestDeploy flag s = (if flag \<and> \<not> agiDeployed s then deployAGI s else s)"

definition handleStep :: "step_request \<Rightarrow> simulation option \<Rightarrow> error + simulation" where
  "handleStep body state =
     (case state of
        None \<Rightarrow> Inl NoSimulationRunning
      | Some s \<Rightarrow>
          Inr (requestDeploy (req_deployAGI body) (runSteps (step_count (req_steps body)) s)))"

text \<open>The same simulation configured with another compute tax rate.\<close>

definition with_computeTax :: "real \<Rightarrow> simulation \<Rightarrow> simulation" where
  "with_computeTax c s = s\<lparr> params := (params s)\<lparr> computeTax := c \<rparr> \<rparr>"

text \<open>
  The scenario of the specification: the input \<open>{nAgents: 100, ubi: 50}\<close>, whatever
  the other keys but \<open>computeTax\<close>, which is absent.
\<close>

definition ubi_scenario :: "request_params \<Rightarrow> (nat \<Rightarrow> real) \<Rightarrow> simulation" where
  "ubi_scenario b rnd =
     Simulation (b\<lparr> req_nAgents := Some 100, req_ubi := Some 50, req_computeTax := None \<rparr>) rnd"

section \<open>Sequences of operations\<close>

text \<open>
  After initialization the simulation changes only by calls of \<open>runStep\<close> and by
  the deployment that \<open>handleStep\<close> guards, in any order: \<open>run_operations\<close> applies
  such a sequence. The states reachable from an initialization are the values of
  \<open>run_operations ops (Simulation b rnd)\<close>.
\<close>

datatype operation = Advance | Deploy

fun run_operations :: "operation list \<Rightarrow> simulation \<Rightarrow> simulation" where
  "run_operations [] s = s"
| "run_operations (Advance # ops) s = run_operations ops (runStep s)"
| "run_operations (Deploy # ops) s = run_operations ops (requestDeploy True s)"

section \<open>Example states\<close>

definition agent_with_wealth :: "jsnum \<Rightarrow> agent" where
  "agent_with_wealth w =
     \<lparr> id_agent = 0, type_agent = Worker, wealth = w, income = Num 100, happiness = 0.5,
       strategy = Normal \<rparr>"

definition example_params :: params where
  "example_params =
     \<lparr> nAgents = 3, agiBoost = 5, workerRationality = 0.5, herdEffect = 0.5, ubi = 0,
       computeTax = 0.5, workHours = 4 \<rparr>"

definition example_agents :: "agent list" where
  "example_agents =
     [\<lparr> id_agent = 0, type_agent = Worker, wealth = Num 10, income = Num 100,
        happiness = 0.5, strategy = Normal \<rparr>,
      \<lparr> id_agent = 1, type_agent = Capitalist, wealth = Num 1000, income = Num 500,
        happiness = 0.75, strategy = Invest \<rparr>,
      \<lparr> id_agent = 2, type_agent = Government, wealth = Num 1000000, income = Num 0,
        happiness = 0.5, strategy = Regulate \<rparr>]"

definition example_state :: simulation where
  "example_state =
     \<lparr> params = example_params, step = 0, agiDeployed = False, agents = example_agents,
       history = empty_history \<rparr>"

definition empty_request :: request_params where
  "empty_request =
     \<lparr> req_nAgents = None, req_agiBoost = None, req_workerRationality = None,
       req_herdEffect = None, req_ubi = None, req_computeTax = None, req_workHours = None \<rparr>"

section \<open>Rounding\<close>

lemma bexp_spec: "0 < x \<Longrightarrow> 2 powi bexp x \<le> x \<and> x < 2 powi (bexp x + 1)"
proof (induction x rule: bexp.induct)
  case (1 x)
  show ?case
  proof (cases "2 \<le> x")
    case True
    then have e: "bexp x = bexp (x / 2) + 1" by (subst bexp.simps) simp
    from "1.IH"(1) [OF True] "1.prems"
    have "2 powi bexp (x / 2) \<le> x / 2 \<and> x / 2 < 2 powi (bexp (x / 2) + 1)" by simp
    then show ?thesis unfolding e by (simp add: power_int_add)
  next
    case False
    show ?thesis
    proof (cases "x < 1")
      case True
      with False "1.prems" have e: "bexp x = bexp (x * 2) - 1" by (subst bexp.simps) simp
      from "1.IH"(2) [OF False] True "1.prems"
      have "2 powi bexp (x * 2) \<le> x * 2 \<and> x * 2 < 2 powi (bexp (x * 2) + 1)" by simp
      then show ?thesis unfolding e by (simp add: power_int_diff power_int_add)
    next
      case ge: False
      with False have "bexp x = 0" by (subst bexp.simps) simp
      with False ge show ?thesis by simp
    qed
  qed
qed


lemma powi2_pos [simp]: "0 < (2::real) powi e"
  by (simp add: power_int_def)

lemma powi2_mono: "a \<le> b \<Longrightarrow> (2::real) powi a \<le> 2 powi b"
  by (rule power_int_increasing) simp_all

lemma powi2_strict: "a < b \<Longrightarrow> (2::real) powi a < 2 powi b"
  by (rule power_int_strict_increasing) simp_all

lemma powi2_less_iff: "((2::real) powi a < 2 powi b) = (a < b)"
  using powi2_strict [of a b] powi2_mono [of b a] by (cases "a < b") auto

lemma powi2_le_iff: "((2::real) powi a \<le> 2 powi b) = (a \<le> b)"
  using powi2_mono [of a b] powi2_strict [of b a] by (cases "a \<le> b") auto

lemma bexp_unique:
  assumes "2 powi e \<le> x" and "x < 2 powi (e + 1)"
  shows "bexp x = e"
proof -
  have pos: "0 < x" using assms(1) powi2_pos [of e] by linarith
  note s = bexp_spec [OF pos]
  have "\<not> bexp x < e"
  proof
    assume "bexp x < e"
    then have "2 powi (bexp x + 1) \<le> (2::real) powi e" by (intro powi2_mono) simp
    with s assms show False by linarith
  qed
  moreover have "\<not> e < bexp x"
  proof
    assume "e < bexp x"
    then have "2 powi (e + 1) \<le> (2::real) powi bexp x" by (intro powi2_mono) simp
    with s assms show False by linarith
  qed
  ultimately show ?thesis by linarith
qed

lemma bexp_mono:
  assumes "0 < x" and "x \<le> y"
  shows "bexp x \<le> bexp y"
proof (rule ccontr)
  assume "\<not> bexp x \<le> bexp y"
  then have "2 powi (bexp y + 1) \<le> (2::real) powi bexp x" by (intro powi2_mono) simp
  with bexp_spec [OF assms(1)] bexp_spec [of y] assms show False by linarith
qed

subsection \<open>Rounding to the nearest integer, ties to even\<close>

lemma rne_of_int [simp]: "rne (of_int n) = n"
  by (simp add: rne_def)

lemma rne_cases:
  "rne x = \<lfloor>x\<rfloor> \<or> rne x = \<lfloor>x\<rfloor> + 1"
  by (simp add: rne_def Let_def)

lemma rne_le: "x \<le> of_int n \<Longrightarrow> rne x \<le> n"
proof -
  assume a: "x \<le> of_int n"
  show ?thesis
  proof (cases "x = of_int n")
    case True
    then show ?thesis by simp
  next
    case False
    with a have "x < of_int n" by simp
    then have "\<lfloor>x\<rfloor> < n" by linarith
    with rne_cases [of x] show ?thesis by linarith
  qed
qed

lemma rne_ge: "of_int n \<le> x \<Longrightarrow> n \<le> rne x"
proof -
  assume "of_int n \<le> x"
  then have "n \<le> \<lfloor>x\<rfloor>" by linarith
  with rne_cases [of x] show ?thesis by linarith
qed

lemma rne_error: "\<bar>of_int (rne x) - x\<bar> \<le> 1 / 2"
proof -
  define d where "d = x - of_int \<lfloor>x\<rfloor>"
  have d: "0 \<le> d" "d < 1" unfolding d_def by linarith+
  have x: "x = of_int \<lfloor>x\<rfloor> + d" by (simp add: d_def)
  have "rne x = (if d < 1 / 2 then \<lfloor>x\<rfloor> else if 1 / 2 < d then \<lfloor>x\<rfloor> + 1
      else if even \<lfloor>x\<rfloor> then \<lfloor>x\<rfloor> else \<lfloor>x\<rfloor> + 1)"
    by (simp add: rne_def Let_def d_def)
  then consider "rne x = \<lfloor>x\<rfloor>" "d \<le> 1 / 2" | "rne x = \<lfloor>x\<rfloor> + 1" "1 / 2 \<le> d"
    by (auto split: if_splits)
  then show ?thesis
  proof cases
    case 1
    then show ?thesis using d by (subst (2) x) simp
  next
    case 2
    then show ?thesis using d by (subst (2) x) simp
  qed
qed

lemma rne_add_even: "rne (x + of_int (2 * m)) = rne x + 2 * m"
proof -
  have f: "\<lfloor>x + of_int (2 * m)\<rfloor> = \<lfloor>x\<rfloor> + 2 * m"
    by (simp only: floor_add_int)
  show ?thesis unfolding rne_def Let_def f by simp
qed

lemma rne_half_half: "rne (of_int (rne (of_int k / 2)) / 2) = rne (of_int k / 4)"
proof -
  define j where "j = k div 4"
  define r where "r = k mod 4"
  have k: "k = 4 * j + r" and r: "r = 0 \<or> r = 1 \<or> r = 2 \<or> r = 3"
    unfolding j_def r_def by presburger+
  have half: "rne (of_int (2 * n) / 2) = n" for n
  proof -
    have "of_int (2 * n) / (2::real) = of_int n" by simp
    then show ?thesis by (simp only: rne_of_int)
  qed
  from r show ?thesis
  proof (elim disjE)
    assume "r = 0"
    then have a: "of_int k / (2::real) = of_int (2 * j)" and b: "of_int k / (4::real) = of_int j"
      by (simp_all add: k)
    have "rne (of_int k / 2) = 2 * j" by (simp only: a rne_of_int)
    moreover have "rne (of_int k / 4) = j" by (simp only: b rne_of_int)
    ultimately show ?thesis by (simp only: half)
  next
    assume "r = 1"
    then have a: "of_int k / (2::real) = of_int (2 * j) + 1 / 2"
      and b: "of_int k / (4::real) = of_int j + 1 / 4"
      by (simp_all add: k field_simps)
    have "\<lfloor>of_int (2 * j) + (1::real) / 2\<rfloor> = 2 * j" by linarith
    then have "rne (of_int k / 2) = 2 * j" unfolding a rne_def Let_def by simp
    moreover have "\<lfloor>of_int j + (1::real) / 4\<rfloor> = j" by linarith
    then have "rne (of_int k / 4) = j" unfolding b rne_def Let_def by simp
    ultimately show ?thesis by (simp only: half)
  next
    assume "r = 2"
    then have a: "of_int k / (2::real) = of_int (2 * j + 1)"
      and b: "of_int k / (4::real) = of_int (2 * j + 1) / 2"
      by (simp_all add: k field_simps)
    have "rne (of_int k / 2) = 2 * j + 1" by (simp only: a rne_of_int)
    then show ?thesis by (simp only: b)
  next
    assume "r = 3"
    then have a: "of_int k / (2::real) = of_int (2 * j + 1) + 1 / 2"
      and b: "of_int k / (4::real) = of_int j + 3 / 4"
      by (simp_all add: k field_simps)
    have "\<lfloor>of_int (2 * j + 1) + (1::real) / 2\<rfloor> = 2 * j + 1" by linarith
    then have "rne (of_int k / 2) = 2 * (j + 1)" unfolding a rne_def Let_def by simp
    moreover have "\<lfloor>of_int j + (3::real) / 4\<rfloor> = j" by linarith
    then have "rne (of_int k / 4) = j + 1" unfolding b rne_def Let_def by simp
    ultimately show ?thesis by (simp only: half)
  qed
qed

subsection \<open>Rounding to the nearest double\<close>

lemma dbl_zero [simp]: "dbl 0 = 0"
  by (simp add: dbl_def)

lemma dbl_minus: "dbl (- x) = - dbl x"
  by (simp add: dbl_def Let_def sgn_if)

lemma dbl_pos_def:
  "0 < x \<Longrightarrow>
   dbl x = of_int (rne (x / 2 powi (max (bexp x) (- 1022) - 52))) * 2 powi (max (bexp x) (- 1022) - 52)"
  by (simp add: dbl_def Let_def)

lemma dbl_binade:
  assumes "2 powi e \<le> x" and "x < 2 powi (e + 1)"
  shows "dbl x = of_int (rne (x / 2 powi (max e (- 1022) - 52))) * 2 powi (max e (- 1022) - 52)"
proof -
  have "0 < x" using assms(1) powi2_pos [of e] by linarith
  then show ?thesis by (simp only: dbl_pos_def bexp_unique [OF assms])
qed

lemma dbl_nonneg: "0 \<le> x \<Longrightarrow> 0 \<le> dbl x"
proof (cases "x = 0")
  case False
  assume "0 \<le> x"
  with False have x: "0 < x" by simp
  then have "0 \<le> x / 2 powi (max (bexp x) (- 1022) - 52)" by simp
  then have "0 \<le> rne (x / 2 powi (max (bexp x) (- 1022) - 52))"
    using rne_ge [of 0] by simp
  then show ?thesis by (simp add: dbl_pos_def [OF x])
qed simp

lemma dbl_nonpos: "x \<le> 0 \<Longrightarrow> dbl x \<le> 0"
  using dbl_nonneg [of "- x"] by (simp add: dbl_minus)

text \<open>A number \<open>m * 2 ^ k\<close> with at most 53 bits in \<open>m\<close> and \<open>k\<close> from -1074 on is a double.\<close>

lemma dbl_rep_pos:
  assumes m: "0 < m" "m < 2 ^ 53" and k: "- 1074 \<le> k"
  shows "dbl (of_int m * 2 powi k) = of_int m * 2 powi k"
proof -
  define x :: real where "x = of_int m * 2 powi k"
  have x: "0 < x" using m by (simp add: x_def)
  define e where "e = max (bexp x) (- 1022)"
  have mr: "(of_int m :: real) < 2 ^ 53" using m(2) by simp
  have "2 powi bexp x \<le> x" using bexp_spec [OF x] by simp
  also have "x < 2 ^ 53 * 2 powi k"
    unfolding x_def using mr by (intro mult_strict_right_mono) simp_all
  also have "\<dots> = 2 powi (53 + k)" by (simp add: power_int_add)
  finally have "bexp x < 53 + k"
    by (simp only: powi2_less_iff)
  then have d: "0 \<le> k - e + 52" using k by (simp add: e_def)
  have "x / 2 powi (e - 52) = of_int m * 2 powi (k - e + 52)"
    by (simp add: x_def power_int_diff power_int_add field_simps)
  also have "2 powi (k - e + 52) = (of_int (2 ^ nat (k - e + 52)) :: real)"
    using d by (simp add: power_int_def)
  finally have "x / 2 powi (e - 52) = of_int (m * 2 ^ nat (k - e + 52))"
    by simp
  then have "rne (x / 2 powi (e - 52)) = m * 2 ^ nat (k - e + 52)"
    by (simp only: rne_of_int)
  then have "dbl x = of_int (m * 2 ^ nat (k - e + 52)) * 2 powi (e - 52)"
    by (simp only: dbl_pos_def [OF x] e_def [symmetric])
  also have "\<dots> = of_int m * (2 powi (k - e + 52) * 2 powi (e - 52))"
    using d by (simp add: power_int_def)
  also have "2 powi (k - e + 52) * 2 powi (e - 52) = (2::real) powi k"
    by (simp add: power_int_add [symmetric])
  finally show ?thesis by (simp add: x_def)
qed

lemma dbl_rep:
  assumes "\<bar>m\<bar> < 2 ^ 53" and "- 1074 \<le> k"
  shows "dbl (of_int m * 2 powi k) = of_int m * 2 powi k"
proof -
  consider "0 < m" | "m = 0" | "m < 0" by linarith
  then show ?thesis
  proof cases
    case 1
    with assms show ?thesis by (intro dbl_rep_pos) simp_all
  next
    case 2
    then show ?thesis by simp
  next
    case 3
    with assms have "dbl (of_int (- m) * 2 powi k) = of_int (- m) * 2 powi k"
      by (intro dbl_rep_pos) simp_all
    then show ?thesis using dbl_minus [of "of_int m * 2 powi k"] by simp
  qed
qed

lemma rne_mantissa:
  assumes "0 < x"
  shows "rne (x / 2 powi (max (bexp x) (- 1022) - 52)) \<le> 2 ^ 53"
proof -
  define e where "e = max (bexp x) (- 1022)"
  have "x < 2 powi (bexp x + 1)" using bexp_spec [OF assms] by simp
  also have "\<dots> \<le> 2 powi (e + 1)" by (intro powi2_mono) (simp add: e_def)
  also have "\<dots> = 2 ^ 53 * 2 powi (e - 52)" by (simp add: power_int_add power_int_diff)
  finally have "x / 2 powi (e - 52) \<le> of_int (2 ^ 53)"
    by (simp add: field_simps)
  then show ?thesis unfolding e_def by (rule rne_le)
qed

lemma dbl_idem: "dbl (dbl x) = dbl x"
proof -
  have pos: "dbl (dbl x) = dbl x" if x: "0 < x" for x
  proof -
    define e where "e = max (bexp x) (- 1022)"
    define m where "m = rne (x / 2 powi (e - 52))"
    have d: "dbl x = of_int m * 2 powi (e - 52)"
      by (simp add: dbl_pos_def [OF x] m_def e_def)
    have m: "0 \<le> m" "m \<le> 2 ^ 53"
      using rne_ge [of 0 "x / 2 powi (e - 52)"] rne_mantissa [OF x] x
      by (simp_all add: m_def e_def)
    have e: "- 1074 \<le> e - 52" by (simp add: e_def)
    show ?thesis
    proof (cases "m = 2 ^ 53")
      case True
      have "(2::real) powi (e - 52 + 1) = 2 powi (e - 52) * 2"
        by (rule power_int_add_1) simp
      then have "dbl x = of_int (2 ^ 52) * 2 powi (e - 52 + 1)"
        unfolding d True by simp
      moreover have "dbl (of_int (2 ^ 52) * 2 powi (e - 52 + 1)) = of_int (2 ^ 52) * 2 powi (e - 52 + 1)"
        using e by (intro dbl_rep) simp_all
      ultimately show ?thesis by simp
    next
      case False
      with m have "\<bar>m\<bar> < 2 ^ 53" by simp
      then show ?thesis unfolding d using e by (rule dbl_rep)
    qed
  qed
  consider "0 < x" | "x = 0" | "x < 0" by linarith
  then show ?thesis
  proof cases
    case 1
    then show ?thesis by (rule pos)
  next
    case 2
    then show ?thesis by simp
  next
    case 3
    then have "dbl (dbl (- x)) = dbl (- x)" by (intro pos) simp
    then show ?thesis by (simp add: dbl_minus)
  qed
qed

lemma dbl_le_rep_pos:
  assumes x: "0 < x" "x \<le> c" and c: "dbl c = c"
  shows "dbl x \<le> c"
proof -
  have cp: "0 < c" using x by linarith
  define ex where "ex = max (bexp x) (- 1022)"
  define ec where "ec = max (bexp c) (- 1022)"
  have le: "ex \<le> ec" using bexp_mono [OF x] by (simp add: ex_def ec_def)
  have dx: "dbl x = of_int (rne (x / 2 powi (ex - 52))) * 2 powi (ex - 52)"
    by (simp add: dbl_pos_def [OF x(1)] ex_def)
  have dc: "c = of_int (rne (c / 2 powi (ec - 52))) * 2 powi (ec - 52)"
    using c by (simp add: dbl_pos_def [OF cp] ec_def)
  show ?thesis
  proof (cases "ex = ec")
    case True
    have "c / 2 powi (ec - 52) = of_int (rne (c / 2 powi (ec - 52)))"
      by (subst (1) dc) simp
    moreover have "x / 2 powi (ec - 52) \<le> c / 2 powi (ec - 52)"
      using x by (simp add: divide_right_mono)
    ultimately have "rne (x / 2 powi (ec - 52)) \<le> rne (c / 2 powi (ec - 52))"
      by (intro rne_le) simp
    then have "of_int (rne (x / 2 powi (ec - 52))) * 2 powi (ec - 52) \<le>
        of_int (rne (c / 2 powi (ec - 52))) * (2::real) powi (ec - 52)"
      by (intro mult_right_mono) simp_all
    then show ?thesis using dc by (simp add: dx True)
  next
    case False
    with le have lt: "ex < ec" by simp
    then have "ec = bexp c" unfolding ec_def ex_def by linarith
    then have "2 powi ec \<le> c" using bexp_spec [OF cp] by simp
    moreover have "2 powi (ex + 1) \<le> (2::real) powi ec" using lt by (intro powi2_mono) simp
    moreover have "of_int (rne (x / 2 powi (ex - 52))) * 2 powi (ex - 52) \<le>
        of_int (2 ^ 53) * (2::real) powi (ex - 52)"
      using rne_mantissa [OF x(1)] by (intro mult_right_mono) (simp_all add: ex_def)
    moreover have "of_int (2 ^ 53) * (2::real) powi (ex - 52) = 2 powi (ex + 1)"
      by (simp add: power_int_add power_int_diff)
    ultimately show ?thesis unfolding dx by linarith
  qed
qed

lemma dbl_ge_rep_pos:
  assumes c: "0 < c" "c \<le> x" "dbl c = c"
  shows "c \<le> dbl x"
proof -
  have xp: "0 < x" using c by linarith
  define ex where "ex = max (bexp x) (- 1022)"
  define ec where "ec = max (bexp c) (- 1022)"
  have le: "ec \<le> ex" using bexp_mono [OF c(1,2)] by (simp add: ex_def ec_def)
  have dx: "dbl x = of_int (rne (x / 2 powi (ex - 52))) * 2 powi (ex - 52)"
    by (simp add: dbl_pos_def [OF xp] ex_def)
  have dc: "c = of_int (rne (c / 2 powi (ec - 52))) * 2 powi (ec - 52)"
    using c(3) by (simp add: dbl_pos_def [OF c(1)] ec_def)
  show ?thesis
  proof (cases "ex = ec")
    case True
    have "c / 2 powi (ec - 52) = of_int (rne (c / 2 powi (ec - 52)))"
      by (subst (1) dc) simp
    moreover have "c / 2 powi (ec - 52) \<le> x / 2 powi (ec - 52)"
      using c by (simp add: divide_right_mono)
    ultimately have "rne (c / 2 powi (ec - 52)) \<le> rne (x / 2 powi (ec - 52))"
      by (intro rne_ge) simp
    then have "of_int (rne (c / 2 powi (ec - 52))) * 2 powi (ec - 52) \<le>
        of_int (rne (x / 2 powi (ec - 52))) * (2::real) powi (ec - 52)"
      by (intro mult_right_mono) simp_all
    then show ?thesis using dc by (simp add: dx True)
  next
    case False
    with le have lt: "ec < ex" by simp
    then have "ex = bexp x" unfolding ec_def ex_def by linarith
    then have "2 powi ex \<le> x" using bexp_spec [OF xp] by simp
    then have "of_int (2 ^ 52) \<le> x / 2 powi (ex - 52)"
      by (simp add: field_simps power_int_diff)
    then have "2 ^ 52 \<le> rne (x / 2 powi (ex - 52))" by (rule rne_ge)
    then have "of_int (2 ^ 52) * (2::real) powi (ex - 52) \<le>
        of_int (rne (x / 2 powi (ex - 52))) * 2 powi (ex - 52)"
      by (intro mult_right_mono) simp_all
    moreover have "of_int (2 ^ 52) * (2::real) powi (ex - 52) = 2 powi ex"
      by (simp add: power_int_diff)
    moreover have "c < 2 powi (bexp c + 1)" using bexp_spec [OF c(1)] by simp
    moreover have "2 powi (bexp c + 1) \<le> (2::real) powi ex"
      using lt by (intro powi2_mono) (simp add: ec_def)
    ultimately show ?thesis unfolding dx by linarith
  qed
qed

lemma dbl_le_rep:
  assumes "x \<le> c" and "dbl c = c"
  shows "dbl x \<le> c"
proof -
  consider "0 < x" | "x \<le> 0" "0 \<le> c" | "c < 0" by linarith
  then show ?thesis
  proof cases
    case 1
    then show ?thesis using assms by (intro dbl_le_rep_pos)
  next
    case 2
    then show ?thesis using dbl_nonpos [of x] by linarith
  next
    case 3
    then have "- c \<le> dbl (- x)"
      using assms by (intro dbl_ge_rep_pos) (simp_all add: dbl_minus)
    then show ?thesis by (simp add: dbl_minus)
  qed
qed

lemma dbl_ge_rep:
  assumes "c \<le> x" and "dbl c = c"
  shows "c \<le> dbl x"
  using dbl_le_rep [of "- x" "- c"] assms by (simp add: dbl_minus)


lemma dbl_eval:
  assumes "2 powi e \<le> \<bar>x\<bar>" and "\<bar>x\<bar> < 2 powi (e + 1)"
  shows "dbl x = sgn x * (of_int (rne (\<bar>x\<bar> / 2 powi (max e (- 1022) - 52))) * 2 powi (max e (- 1022) - 52))"
proof (cases "0 < x")
  case True
  then show ?thesis using assms dbl_binade [of e x] by simp
next
  case False
  have "0 < \<bar>x\<bar>" using assms(1) powi2_pos [of e] by linarith
  then have "x \<noteq> 0" by simp
  with False have n: "x < 0" by simp
  then show ?thesis using assms dbl_binade [of e "- x"] dbl_minus [of x] by simp
qed

lemma rne_unique:
  assumes "\<bar>of_int m - x\<bar> < 1 / 2"
  shows "rne x = m"
proof -
  have "\<bar>of_int (rne x) - x\<bar> \<le> 1 / 2" by (rule rne_error)
  with assms have "\<bar>(of_int (rne x) :: real) - of_int m\<bar> < 1" by linarith
  then have "\<bar>rne x - m\<bar> < 1"
    by (metis of_int_abs of_int_diff of_int_less_1_iff)
  then show ?thesis by linarith
qed

lemma rne_tie:
  assumes "x = of_int m + 1 / 2"
  shows "rne x = (if even m then m else m + 1)"
proof -
  have "\<lfloor>x\<rfloor> = m" unfolding assms by linarith
  then show ?thesis by (simp add: rne_def Let_def assms)
qed

text \<open>Evaluation with the exponent and the mantissa given.\<close>

lemma dbl_is:
  assumes "2 powi e \<le> x" and "x < 2 powi (e + 1)" and "- 1022 \<le> e"
    and "\<bar>of_int m * 2 powi (e - 52) - x\<bar> < 2 powi (e - 53)"
  shows "dbl x = of_int m * 2 powi (e - 52)"
proof -
  define q :: real where "q = 2 powi (e - 52)"
  have q: "0 < q" by (simp add: q_def)
  have h: "(2::real) powi (e - 53) = q / 2"
    by (simp add: q_def power_int_diff)
  have "of_int m - x / q = (of_int m * q - x) / q" using q by (simp add: field_simps)
  then have "\<bar>of_int m - x / q\<bar> = \<bar>of_int m * q - x\<bar> / q"
    using q by (simp add: abs_if field_simps)
  also have "\<dots> < 1 / 2" using assms(4) q unfolding h q_def [symmetric]
    by (simp add: field_simps)
  finally have "rne (x / q) = m" by (rule rne_unique)
  moreover have "max e (- 1022) = e" using assms(3) by simp
  ultimately show ?thesis using dbl_binade [OF assms(1,2)] by (simp add: q_def)
qed

section \<open>Results of operations\<close>

lemma fl_zero [simp]: "fl 0 = Num 0"
  by (simp add: fl_def)

lemma fl_Num: "\<bar>dbl x\<bar> < 2 powi 1024 \<Longrightarrow> fl x = Num (dbl x)"
  by (simp add: fl_def Let_def)

lemma dbl_abs_le_rep:
  assumes "\<bar>x\<bar> \<le> c" and "dbl c = c"
  shows "\<bar>dbl x\<bar> \<le> c"
proof -
  have "dbl (- c) = - c" using assms(2) by (simp add: dbl_minus)
  moreover have "- c \<le> x" and "x \<le> c" using assms(1) by linarith+
  ultimately have "- c \<le> dbl x" and "dbl x \<le> c"
    using dbl_ge_rep [of "- c" x] dbl_le_rep [of x c] assms(2) by simp_all
  then show ?thesis by linarith
qed

lemma dbl_powi2: "- 1074 \<le> k \<Longrightarrow> dbl (2 powi k) = 2 powi k"
  using dbl_rep_pos [of 1 k] by simp

lemma fl_bounded:
  assumes "\<bar>x\<bar> \<le> 2 powi k" and "- 1074 \<le> k" and "k < 1024"
  shows "fl x = Num (dbl x)"
proof -
  have "\<bar>dbl x\<bar> \<le> 2 powi k"
    using assms(1) dbl_powi2 [OF assms(2)] by (rule dbl_abs_le_rep)
  also have "(2::real) powi k < 2 powi 1024" using assms(3) by (rule powi2_strict)
  finally show ?thesis by (rule fl_Num)
qed

lemma fl_nonneg: "0 \<le> x \<Longrightarrow> nonneg_result (fl x)"
proof -
  assume x: "0 \<le> x"
  then have "0 \<le> dbl x" by (rule dbl_nonneg)
  then show ?thesis
    by (auto simp: nonneg_result_def fl_def Let_def dbl_idem not_less
        dest: order.trans [OF less_imp_le [OF powi2_pos]])
qed

lemma nonneg_result_js_le: "nonneg_result r \<Longrightarrow> js_le (Num 0) r"
  by (auto simp: nonneg_result_def js_le_def)

lemma js_le_zero_cases: "js_le (Num 0) r = (r = PosInfinity \<or> (\<exists>y. r = Num y \<and> 0 \<le> y))"
  by (cases r) (auto simp: js_le_def)

section \<open>Basic facts about steps and deployments\<close>

lemma step_runStep: "step (runStep s) = step s + 1"
  by (simp add: runStep_def Let_def)

lemma params_runStep: "params (runStep s) = params s"
  by (simp add: runStep_def Let_def)

lemma agiDeployed_runStep: "agiDeployed (runStep s) = agiDeployed s"
  by (simp add: runStep_def Let_def)

lemma agents_runStep:
  "agents (runStep s) = policy_phase (params s) (agiDeployed s) (map strategy_phase (agents s))"
  by (simp add: runStep_def Let_def)

lemma history_runStep:
  "history (runStep s) =
     (if (step s + 1) mod 5 = 0
      then sample_history (step s + 1) (agents (runStep s)) (history s) else history s)"
  by (simp add: runStep_def Let_def)

lemma agiDeployed_runSteps: "agiDeployed (runSteps n s) = agiDeployed s"
  by (induction n arbitrary: s) (simp_all add: agiDeployed_runStep)

lemma type_strategy_phase: "type_agent (strategy_phase a) = type_agent a"
  by (simp add: strategy_phase_def Let_def split: strategy_kind.split)

lemma length_policy_phase: "length (policy_phase p d ags) = length ags"
  by (simp add: policy_phase_def compute_tax_phase_def Let_def)

lemma length_agents_runStep: "length (agents (runStep s)) = length (agents s)"
  by (simp add: agents_runStep length_policy_phase)

lemma length_agents_deployAGI: "length (agents (deployAGI s)) = length (agents s)"
  by (simp add: deployAGI_def)

lemma length_agents_requestDeploy: "length (agents (requestDeploy f s)) = length (agents s)"
  by (simp add: requestDeploy_def length_agents_deployAGI)

lemma length_agents_run_operations:
  "length (agents (run_operations ops s)) = length (agents s)"
  by (induction ops s rule: run_operations.induct)
    (simp_all add: length_agents_runStep length_agents_requestDeploy)

section \<open>Evaluating an operation\<close>

lemma rne_tie_even:
  assumes "\<bar>of_int m - x\<bar> = 1 / 2" and "even m"
  shows "rne x = m"
proof -
  consider "x = of_int m + 1 / 2" | "x = of_int (m - 1) + 1 / 2"
    using assms(1) by (auto simp: abs_if split: if_splits)
  then show ?thesis
  proof cases
    case 1
    then show ?thesis using assms(2) by (simp add: rne_tie)
  next
    case 2
    then have "rne x = (if even (m - 1) then m - 1 else m - 1 + 1)" by (rule rne_tie)
    then show ?thesis using assms(2) by simp
  qed
qed

text \<open>
  The double nearest to \<open>x\<close>, given its exponent \<open>e\<close> and its mantissa \<open>m\<close>: \<open>m\<close> is
  nearer to \<open>x / 2 ^ (e - 52)\<close> than every other whole number, or as near as another
  and even.
\<close>

lemma dbl_eval_pos:
  assumes "2 powi e \<le> x" and "x < 2 powi (e + 1)" and "- 1022 \<le> e"
    and "\<bar>of_int m * 2 powi (e - 52) - x\<bar> < 2 powi (e - 53) \<or>
         \<bar>of_int m * 2 powi (e - 52) - x\<bar> = 2 powi (e - 53) \<and> even m"
  shows "dbl x = of_int m * 2 powi (e - 52)"
proof -
  define q :: real where "q = 2 powi (e - 52)"
  have q: "0 < q" by (simp add: q_def)
  have h: "(2::real) powi (e - 53) = q / 2"
    by (simp add: q_def power_int_diff)
  have "of_int m - x / q = (of_int m * q - x) / q" using q by (simp add: field_simps)
  then have a: "\<bar>of_int m - x / q\<bar> = \<bar>of_int m * q - x\<bar> / q"
    using q by (simp add: abs_if field_simps)
  have "rne (x / q) = m"
    using assms(4) unfolding h q_def [symmetric]
  proof
    assume "\<bar>of_int m * q - x\<bar> < q / 2"
    then have "\<bar>of_int m - x / q\<bar> < 1 / 2"
      unfolding a using q by (simp add: field_simps)
    then show ?thesis by (rule rne_unique)
  next
    assume t: "\<bar>of_int m * q - x\<bar> = q / 2 \<and> even m"
    then have "\<bar>of_int m - x / q\<bar> = 1 / 2"
      unfolding a using q by simp
    then show ?thesis using t by (intro rne_tie_even) simp_all
  qed
  moreover have "max e (- 1022) = e" using assms(3) by simp
  ultimately show ?thesis using dbl_binade [OF assms(1,2)] by (simp add: q_def)
qed

lemma fl_eval_pos:
  assumes "2 powi e \<le> x" and "x < 2 powi (e + 1)" and "- 1022 \<le> e" and "e < 1023"
    and "\<bar>of_int m * 2 powi (e - 52) - x\<bar> < 2 powi (e - 53) \<or>
         \<bar>of_int m * 2 powi (e - 52) - x\<bar> = 2 powi (e - 53) \<and> even m"
  shows "fl x = Num (of_int m * 2 powi (e - 52))"
proof -
  have "\<bar>x\<bar> \<le> 2 powi (e + 1)"
    using assms(1,2) powi2_pos [of e] by linarith
  then have "fl x = Num (dbl x)"
    using assms(3,4) by (intro fl_bounded [of x "e + 1"]) simp_all
  then show ?thesis using dbl_eval_pos [OF assms(1,2,3,5)] by simp
qed

lemma fl_eval_neg:
  assumes "2 powi e \<le> - x" and "- x < 2 powi (e + 1)" and "- 1022 \<le> e" and "e < 1023"
    and "\<bar>of_int m * 2 powi (e - 52) + x\<bar> < 2 powi (e - 53) \<or>
         \<bar>of_int m * 2 powi (e - 52) + x\<bar> = 2 powi (e - 53) \<and> even m"
  shows "fl x = Num (- (of_int m * 2 powi (e - 52)))"
proof -
  have "\<bar>x\<bar> \<le> 2 powi (e + 1)"
    using assms(1,2) powi2_pos [of e] by linarith
  then have "fl x = Num (dbl x)"
    using assms(3,4) by (intro fl_bounded [of x "e + 1"]) simp_all
  moreover have "dbl (- x) = of_int m * 2 powi (e - 52)"
    using assms(5) by (intro dbl_eval_pos [OF assms(1,2,3)]) simp
  ultimately show ?thesis by (simp add: dbl_minus)
qed

text \<open>A whole number below \<open>2 ^ 53\<close> is a double, and so is its product with a power of 2.\<close>

lemma fl_int: "\<bar>m\<bar> < 2 ^ 53 \<Longrightarrow> fl (of_int m) = Num (of_int m)"
proof -
  assume m: "\<bar>m\<bar> < 2 ^ 53"
  then have d: "dbl (of_int m) = of_int m"
    using dbl_rep [of m 0] by simp
  have "\<bar>of_int m :: real\<bar> < 2 ^ 53"
    using m by (metis of_int_abs of_int_less_numeral_power_cancel_iff)
  also have "(2::real) ^ 53 = 2 powi 53" by simp
  also have "\<dots> < 2 powi 1024" by (rule powi2_strict) simp
  finally show ?thesis using d by (simp add: fl_Num)
qed

section \<open>Deployment\<close>

text \<open>
  Claim C1. The Deploy operation is the deployment as \<open>handleStep\<close> invokes it,
  \<open>requestDeploy True\<close>. Invoking it twice gives the same state as invoking it once:
  the same agents, with their wealth, income and happiness, and the same flag, which
  is set. A request with a negative step count runs no step, so \<open>handleStep\<close> can
  invoke the operation alone, and a second such request changes nothing. Nor does a
  second invocation after any number of steps.
\<close>

theorem deploy_idempotent:
  "requestDeploy True (requestDeploy True s) = requestDeploy True s \<and>
   agents (requestDeploy True (requestDeploy True s)) = agents (requestDeploy True s) \<and>
   agiDeployed (requestDeploy True (requestDeploy True s)) = agiDeployed (requestDeploy True s) \<and>
   agiDeployed (requestDeploy True s) \<and>
   handleStep \<lparr> req_steps = Some (- 1), req_deployAGI = True \<rparr> (Some s) =
     Inr (requestDeploy True s) \<and>
   handleStep \<lparr> req_steps = Some (- 1), req_deployAGI = True \<rparr> (Some (requestDeploy True s)) =
     Inr (requestDeploy True s) \<and>
   requestDeploy True (runSteps n (requestDeploy True s)) = runSteps n (requestDeploy True s)"
  by (simp add: requestDeploy_def deployAGI_def handleStep_def step_count_def or_default_def
      agiDeployed_runSteps)

section \<open>Initialization\<close>

text \<open>The literals \<open>0.8\<close> and \<open>0.999\<close> as doubles, and the band boundaries for 1000 agents.\<close>

lemma dbl_0_8: "dbl (4 / 5) = 3602879701896397 / 2 ^ 52"
  using dbl_is [of "- 1" "4 / 5" 7205759403792794]
  by (simp add: power_int_minus)

lemma dbl_0_999: "dbl (999 / 1000) = 8998192055486251 / 2 ^ 53"
  using dbl_is [of "- 1" "999 / 1000" 8998192055486251]
  by (simp add: power_int_minus)

lemma workers_bound_1000: "dbl (1000 * dbl (4 / 5)) = 800"
  unfolding dbl_0_8
  using dbl_is [of 9 "1000 * (3602879701896397 / 2 ^ 52)" "800 * 2 ^ 43"]
  by (simp add: power_int_minus)

lemma capitalists_bound_1000: "dbl (1000 * dbl (999 / 1000)) = 999"
  unfolding dbl_0_999
  using dbl_is [of 9 "1000 * (8998192055486251 / 2 ^ 53)" "999 * 2 ^ 43"]
  by (simp add: power_int_minus)

text \<open>
  Claim C10. The stored agent count is the input's \<open>nAgents\<close> whenever the key is
  present, and the default 1000 only when it is absent. With \<open>nAgents\<close> explicitly 0
  the stored count is 0 and the population is empty.
\<close>

theorem explicit_zero_nAgents:
  "nAgents (params (Simulation b rnd)) = (case req_nAgents b of None \<Rightarrow> 1000 | Some v \<Rightarrow> v) \<and>
   nAgents (params (Simulation (b\<lparr> req_nAgents := Some 0 \<rparr>) rnd)) = 0 \<and>
   agents (Simulation (b\<lparr> req_nAgents := Some 0 \<rparr>) rnd) = [] \<and>
   nAgents (params (Simulation (b\<lparr> req_nAgents := None \<rparr>) rnd)) = 1000"
  by (simp add: Simulation_def make_params_def spread_def or_default_def initAgents_def
      ids_below_def Let_def split: option.split)

lemma ids_make_workers: "map id_agent (make_workers rnd k js) = js"
  by (induction js arbitrary: k) simp_all

lemma ids_make_capitalists: "map id_agent (make_capitalists rnd k js) = js"
  by (induction js arbitrary: k) simp_all

lemma kinds_make_workers:
  "map (\<lambda>a. (type_agent a, strategy a)) (make_workers rnd k js) =
     replicate (length js) (Worker, Normal)"
  by (induction js arbitrary: k) simp_all

lemma kinds_make_capitalists:
  "map (\<lambda>a. (type_agent a, strategy a)) (make_capitalists rnd k js) =
     replicate (length js) (Capitalist, Invest)"
  by (induction js arbitrary: k) simp_all

lemma kinds_make_government:
  "map ((\<lambda>a. (type_agent a, strategy a)) \<circ> make_government) js =
     replicate (length js) (Government, Regulate)"
  by (induction js) (simp_all add: make_government_def)

lemma ids_initAgents:
  "map id_agent (initAgents rnd n) =
     ids_below 0 (of_int \<lfloor>dbl (n * dbl (4 / 5))\<rfloor>) @
     ids_below \<lfloor>dbl (n * dbl (4 / 5))\<rfloor> (of_int \<lfloor>dbl (n * dbl (999 / 1000))\<rfloor>) @
     ids_below \<lfloor>dbl (n * dbl (999 / 1000))\<rfloor> n"
  by (simp add: initAgents_def Let_def ids_make_workers ids_make_capitalists o_def
      make_government_def)

lemma kinds_initAgents:
  "map (\<lambda>a. (type_agent a, strategy a)) (initAgents rnd n) =
     replicate (length (ids_below 0 (of_int \<lfloor>dbl (n * dbl (4 / 5))\<rfloor>))) (Worker, Normal) @
     replicate (length (ids_below \<lfloor>dbl (n * dbl (4 / 5))\<rfloor>
       (of_int \<lfloor>dbl (n * dbl (999 / 1000))\<rfloor>))) (Capitalist, Invest) @
     replicate (length (ids_below \<lfloor>dbl (n * dbl (999 / 1000))\<rfloor> n)) (Government, Regulate)"
  by (simp add: initAgents_def Let_def kinds_make_workers kinds_make_capitalists
      kinds_make_government)

lemma bands_1000:
  "ids_below 0 (of_int \<lfloor>dbl (1000 * dbl (4 / 5))\<rfloor>) = [0..799] \<and>
   ids_below \<lfloor>dbl (1000 * dbl (4 / 5))\<rfloor> (of_int \<lfloor>dbl (1000 * dbl (999 / 1000))\<rfloor>) =
     [800..998] \<and>
   ids_below \<lfloor>dbl (1000 * dbl (999 / 1000))\<rfloor> 1000 = [999..999]"
  unfolding workers_bound_1000 capitalists_bound_1000
  by (simp add: ids_below_def del: upto_rec_numeral)

text \<open>
  Claim C7. With \<open>nAgents = 1000\<close> the agents have the ids 0 to 999 in order; the first
  800 are workers with the strategy normal, the next 199 capitalists with the strategy
  invest, and the last one is the government with the strategy regulate. The band
  boundaries are \<open>Math.floor(n * 0.8)\<close> and \<open>Math.floor(n * 0.999)\<close> in \<open>initAgents\<close>,
  products of doubles that come to 800 and 999.
\<close>

theorem init_1000_bands:
  "map id_agent (agents (Simulation (b\<lparr> req_nAgents := Some 1000 \<rparr>) rnd)) = [0..999] \<and>
   map (\<lambda>a. (type_agent a, strategy a)) (agents (Simulation (b\<lparr> req_nAgents := Some 1000 \<rparr>) rnd)) =
     replicate 800 (Worker, Normal) @ replicate 199 (Capitalist, Invest) @
     replicate 1 (Government, Regulate) \<and>
   length (filter (\<lambda>a. type_agent a = Worker)
     (agents (Simulation (b\<lparr> req_nAgents := Some 1000 \<rparr>) rnd))) = 800 \<and>
   length (filter (\<lambda>a. type_agent a = Capitalist)
     (agents (Simulation (b\<lparr> req_nAgents := Some 1000 \<rparr>) rnd))) = 199 \<and>
   length (filter (\<lambda>a. type_agent a = Government)
     (agents (Simulation (b\<lparr> req_nAgents := Some 1000 \<rparr>) rnd))) = 1"
proof -
  have n: "nAgents (make_params (b\<lparr> req_nAgents := Some 1000 \<rparr>)) = 1000"
    by (simp add: make_params_def spread_def)
  have "[0..999] = [0..799] @ [800..998] @ [999..999::int]"
    using upto_split1 [of 0 800 999] upto_split1 [of 800 999 999]
    by (simp del: upto_rec_numeral)
  moreover have
    "length (filter (\<lambda>a. type_agent a = t) (initAgents rnd 1000)) =
      length (filter (\<lambda>k. fst k = t)
        (map (\<lambda>a. (type_agent a, strategy a)) (initAgents rnd 1000)))" for t
    by (simp add: filter_map o_def)
  ultimately show ?thesis
    using bands_1000
    by (simp add: Simulation_def Let_def n ids_initAgents kinds_initAgents
        del: upto_rec_numeral)
qed

section \<open>Steps and the history\<close>

lemma sample_history_fields:
  "steps (sample_history st ags h) = steps h @ [st]"
  "length (gini (sample_history st ags h)) = length (gini h) + 1"
  "length (velocity (sample_history st ags h)) = length (velocity h) + 1"
  "length (workerHappiness (sample_history st ags h)) = length (workerHappiness h) + 1"
  "length (capitalistHappiness (sample_history st ags h)) = length (capitalistHappiness h) + 1"
  by (simp_all add: sample_history_def)

lemma fresh_simulation: "step (Simulation b rnd) = 0" "history (Simulation b rnd) = empty_history"
  "agiDeployed (Simulation b rnd) = False" "params (Simulation b rnd) = make_params b"
  by (simp_all add: Simulation_def Let_def)

lemma five_steps:
  "runSteps 5 s = runStep (runStep (runStep (runStep (runStep s))))"
  by (simp add: eval_nat_numeral)

lemma four_steps:
  "runSteps 4 s = runStep (runStep (runStep (runStep s)))"
  by (simp add: eval_nat_numeral)

lemma five_steps_history:
  assumes "step s = 0" and "history s = empty_history"
  shows "step (runSteps 5 s) = 5"
    and "steps (history (runSteps 5 s)) = [5]"
    and "length (gini (history (runSteps 5 s))) = 1"
    and "length (velocity (history (runSteps 5 s))) = 1"
    and "length (workerHappiness (history (runSteps 5 s))) = 1"
    and "length (capitalistHappiness (history (runSteps 5 s))) = 1"
  using assms
  by (simp_all add: five_steps step_runStep history_runStep sample_history_fields
      empty_history_def)

lemma four_steps_history:
  assumes "step s = 0" and "history s = empty_history"
  shows "step (runSteps 4 s) = 4" and "history (runSteps 4 s) = empty_history"
  using assms
  by (simp_all add: four_steps step_runStep history_runStep)

text \<open>
  Claim C6. From a freshly initialized simulation (step 0, empty history), five
  steps leave the step counter at 5 and each of the five history sequences with
  exactly one entry, the sampled step being 5; four steps leave the counter at 4 and
  the history empty. These are the steps that \<open>handleStep\<close> runs for \<open>steps = 5\<close> and
  \<open>steps = 4\<close>.
\<close>

theorem fresh_advance_history:
  "step (runSteps 5 (Simulation b rnd)) = 5 \<and>
   steps (history (runSteps 5 (Simulation b rnd))) = [5] \<and>
   length (gini (history (runSteps 5 (Simulation b rnd)))) = 1 \<and>
   length (velocity (history (runSteps 5 (Simulation b rnd)))) = 1 \<and>
   length (workerHappiness (history (runSteps 5 (Simulation b rnd)))) = 1 \<and>
   length (capitalistHappiness (history (runSteps 5 (Simulation b rnd)))) = 1 \<and>
   step (runSteps 4 (Simulation b rnd)) = 4 \<and>
   history (runSteps 4 (Simulation b rnd)) = empty_history \<and>
   history (Simulation b rnd) = empty_history \<and>
   handleStep \<lparr> req_steps = Some 5, req_deployAGI = False \<rparr> (Some (Simulation b rnd)) =
     Inr (runSteps 5 (Simulation b rnd)) \<and>
   handleStep \<lparr> req_steps = Some 4, req_deployAGI = False \<rparr> (Some (Simulation b rnd)) =
     Inr (runSteps 4 (Simulation b rnd))"
  by (simp add: five_steps_history four_steps_history fresh_simulation handleStep_def
      requestDeploy_def step_count_def or_default_def)

section \<open>Invariants of the agents\<close>

text \<open>A property of single agents that every part of a step keeps is kept by the step.\<close>

lemma policy_phase_keeps:
  assumes ubi: "\<And>a. P a \<Longrightarrow> P (apply_ubi p a)"
    and tax: "\<And>a. P a \<Longrightarrow> P (apply_tax p a)"
    and red: "\<And>a r. P a \<Longrightarrow> P (add_redistribution r a)"
    and ags: "list_all P ags"
  shows "list_all P (policy_phase p d ags)"
proof -
  have t: "list_all P (compute_tax_phase p xs)" if "list_all P xs" for xs
    using that by (simp add: compute_tax_phase_def Let_def list_all_iff tax red)
  have u: "list_all P (map (apply_ubi p) ags)"
    using ags by (simp add: list_all_iff ubi)
  show ?thesis
    unfolding policy_phase_def Let_def using ags u t [OF ags] t [OF u] by simp
qed

lemma runStep_keeps:
  assumes "\<And>a. P a \<Longrightarrow> P (strategy_phase a)"
    and "\<And>a. P a \<Longrightarrow> P (apply_ubi (params s) a)"
    and "\<And>a. P a \<Longrightarrow> P (apply_tax (params s) a)"
    and "\<And>a r. P a \<Longrightarrow> P (add_redistribution r a)"
    and "list_all P (agents s)"
  shows "list_all P (agents (runStep s))"
proof -
  have "list_all P (map strategy_phase (agents s))"
    using assms(1,5) by (simp add: list_all_iff)
  then show ?thesis
    unfolding agents_runStep by (intro policy_phase_keeps assms(2-4))
qed

text \<open>Rounding keeps a happiness between 0 and 1, both of them doubles.\<close>

lemma dbl_one: "dbl 1 = 1"
  using dbl_rep_pos [of 1 0] by simp

lemma dbl_unit: "0 \<le> x \<Longrightarrow> x \<le> 1 \<Longrightarrow> 0 \<le> dbl x \<and> dbl x \<le> 1"
  using dbl_nonneg [of x] dbl_le_rep [of x 1] dbl_one by simp

lemma dbl_literal_nonneg: "0 \<le> dbl (5 / 1000)" "0 \<le> dbl (1 / 100)" "0 \<le> dbl (3 / 1000)"
  by (simp_all add: dbl_nonneg)

lemma happiness_strategy_phase:
  "0 \<le> happiness (strategy_phase a) \<and> happiness (strategy_phase a) \<le> 1"
  by (simp add: strategy_phase_def Let_def split: strategy_kind.split)

lemma happiness_apply_ubi:
  assumes "0 \<le> happiness a \<and> happiness a \<le> 1"
  shows "0 \<le> happiness (apply_ubi p a) \<and> happiness (apply_ubi p a) \<le> 1"
proof -
  have "0 \<le> happiness a + dbl (5 / 1000)"
    using assms dbl_nonneg [of "5 / 1000"] by simp
  then have "0 \<le> dbl (happiness a + dbl (5 / 1000))" by (rule dbl_nonneg)
  then show ?thesis using assms by (simp add: apply_ubi_def)
qed

lemma happiness_apply_tax:
  assumes "0 \<le> happiness a \<and> happiness a \<le> 1"
  shows "0 \<le> happiness (apply_tax p a) \<and> happiness (apply_tax p a) \<le> 1"
proof -
  have "happiness a - dbl (3 / 1000) \<le> 1"
    using assms dbl_nonneg [of "3 / 1000"] by simp
  then have "dbl (happiness a - dbl (3 / 1000)) \<le> 1"
    using dbl_le_rep [of "happiness a - dbl (3 / 1000)" 1] dbl_one by simp
  then show ?thesis using assms by (simp add: apply_tax_def)
qed

lemma happiness_add_redistribution:
  "happiness (add_redistribution r a) = happiness a"
  by (simp add: add_redistribution_def)

lemma happiness_deploy_agent:
  assumes "0 \<le> happiness a \<and> happiness a \<le> 1"
  shows "0 \<le> happiness (deploy_agent x a) \<and> happiness (deploy_agent x a) \<le> 1"
proof -
  have "0 \<le> happiness a * (1 / 2)" and "happiness a * (1 / 2) \<le> 1"
    using assms by simp_all
  then have "0 \<le> dbl (happiness a * (1 / 2)) \<and> dbl (happiness a * (1 / 2)) \<le> 1"
    by (rule dbl_unit)
  then show ?thesis using assms by (simp add: deploy_agent_def)
qed

lemma happiness_runStep:
  "list_all (\<lambda>a. 0 \<le> happiness a \<and> happiness a \<le> 1) (agents (runStep s))"
  unfolding agents_runStep
proof (rule policy_phase_keeps)
  show "list_all (\<lambda>a. 0 \<le> happiness a \<and> happiness a \<le> 1) (map strategy_phase (agents s))"
    by (simp add: list_all_iff happiness_strategy_phase)
qed (simp_all only: happiness_apply_ubi happiness_apply_tax happiness_add_redistribution)

lemma happiness_deployAGI:
  assumes "list_all (\<lambda>a. 0 \<le> happiness a \<and> happiness a \<le> 1) (agents s)"
  shows "list_all (\<lambda>a. 0 \<le> happiness a \<and> happiness a \<le> 1) (agents (deployAGI s))"
  using assms by (simp add: deployAGI_def list_all_iff happiness_deploy_agent)

lemma happiness_requestDeploy:
  assumes "list_all (\<lambda>a. 0 \<le> happiness a \<and> happiness a \<le> 1) (agents s)"
  shows "list_all (\<lambda>a. 0 \<le> happiness a \<and> happiness a \<le> 1) (agents (requestDeploy f s))"
  using assms happiness_deployAGI [of s] by (simp add: requestDeploy_def)

lemma happiness_run_operations:
  assumes "list_all (\<lambda>a. 0 \<le> happiness a \<and> happiness a \<le> 1) (agents s)"
  shows "list_all (\<lambda>a. 0 \<le> happiness a \<and> happiness a \<le> 1) (agents (run_operations ops s))"
  using assms
proof (induction ops s rule: run_operations.induct)
  case (1 s)
  then show ?case by simp
next
  case (2 ops s)
  show ?case using "2.IH" [OF happiness_runStep] by simp
next
  case (3 ops s)
  show ?case using "3.IH" [OF happiness_requestDeploy [OF "3.prems"]] by simp
qed

text \<open>
  Claim C4. After every call of \<open>runStep\<close>, from whatever state, every agent's
  happiness lies in the interval from 0 to 1, and so it does in every state that
  follows a step by further steps and deployments; the deployment, with or without
  the guard of \<open>handleStep\<close>, keeps the happiness of every agent in that interval.
\<close>

theorem happiness_in_unit_interval:
  "(\<forall>a\<in>set (agents (runStep s)). 0 \<le> happiness a \<and> happiness a \<le> 1) \<and>
   (\<forall>a\<in>set (agents (run_operations ops (runStep s))). 0 \<le> happiness a \<and> happiness a \<le> 1) \<and>
   ((\<forall>a\<in>set (agents s). 0 \<le> happiness a \<and> happiness a \<le> 1) \<longrightarrow>
      (\<forall>a\<in>set (agents (deployAGI s)). 0 \<le> happiness a \<and> happiness a \<le> 1) \<and>
      (\<forall>a\<in>set (agents (requestDeploy True s)). 0 \<le> happiness a \<and> happiness a \<le> 1))"
  using happiness_runStep [of s] happiness_run_operations [OF happiness_runStep, of ops s]
    happiness_deployAGI [of s] happiness_requestDeploy [of s True]
  unfolding list_all_iff by blast

theorem happiness_in_unit_interval_witness:
  "list_all (\<lambda>a. 0 \<le> happiness a \<and> happiness a \<le> 1) (agents (runStep example_state)) \<and>
   list_all (\<lambda>a. 0 \<le> happiness a \<and> happiness a \<le> 1)
     (agents (run_operations [Deploy, Advance] (runStep example_state))) \<and>
   list_all (\<lambda>a. 0 \<le> happiness a \<and> happiness a \<le> 1) (agents (deployAGI example_state)) \<and>
   list_all (\<lambda>a. 0 \<le> happiness a \<and> happiness a \<le> 1)
     (agents (requestDeploy True example_state)) \<and>
   map happiness (agents example_state) = [0.5, 0.75, 0.5]"
proof -
  have "\<forall>a\<in>set (agents example_state). 0 \<le> happiness a \<and> happiness a \<le> 1"
    and "map happiness (agents example_state) = [0.5, 0.75, 0.5]"
    by (simp_all add: example_state_def example_agents_def)
  then show ?thesis
    using happiness_in_unit_interval [of example_state "[Deploy, Advance]"]
    unfolding list_all_iff by blast
qed

section \<open>Wealth and strategies\<close>

lemma fl_not_NaN [simp]: "fl x \<noteq> NaN"
  by (simp add: fl_def Let_def)

lemma js_exp_nonneg: "x \<noteq> NaN \<Longrightarrow> js_le (Num 0) (js_exp x)"
proof (cases x)
  case (Num a)
  have "nonneg_result (fl (exp a))" by (rule fl_nonneg) simp
  then show ?thesis using Num by (simp add: nonneg_result_js_le)
qed (simp_all add: js_le_def)

lemma js_add_Num_not_NaN: "y \<noteq> NaN \<Longrightarrow> js_add (Num a) y \<noteq> NaN"
  by (cases y) simp_all

lemma js_mul_nonneg:
  assumes "js_le (Num 0) w" and "0 < c"
  shows "js_le (Num 0) (js_mul w (Num c))"
proof (cases w)
  case (Num x)
  with assms have "0 \<le> x * c" by (simp add: js_le_def)
  then have "nonneg_result (fl (x * c))" by (rule fl_nonneg)
  then show ?thesis using Num by (simp add: nonneg_result_js_le)
qed (use assms in \<open>simp_all add: js_le_def\<close>)

lemma dbl_1_02_pos: "0 < dbl (51 / 50)"
  using dbl_ge_rep [of 1 "51 / 50"] dbl_one by simp

lemma wealthy_make_workers:
  "list_all (\<lambda>a. js_le (Num 0) (wealth a) \<and> strategy a \<noteq> Save \<and> strategy a \<noteq> Spend)
     (make_workers rnd k js)"
  by (induction js arbitrary: k) (simp_all add: js_exp_nonneg js_add_Num_not_NaN)

lemma wealthy_make_capitalists:
  "list_all (\<lambda>a. js_le (Num 0) (wealth a) \<and> strategy a \<noteq> Save \<and> strategy a \<noteq> Spend)
     (make_capitalists rnd k js)"
  by (induction js arbitrary: k) (simp_all add: js_exp_nonneg js_add_Num_not_NaN)

lemma wealthy_initAgents:
  "list_all (\<lambda>a. js_le (Num 0) (wealth a) \<and> strategy a \<noteq> Save \<and> strategy a \<noteq> Spend)
     (initAgents rnd n)"
  by (simp add: initAgents_def Let_def wealthy_make_workers wealthy_make_capitalists)
    (simp add: list_all_iff make_government_def js_le_def)

lemma wealthy_strategy_phase:
  "js_le (Num 0) (wealth a) \<and> strategy a \<noteq> Save \<and> strategy a \<noteq> Spend \<Longrightarrow>
   js_le (Num 0) (wealth (strategy_phase a)) \<and> strategy (strategy_phase a) \<noteq> Save \<and>
   strategy (strategy_phase a) \<noteq> Spend"
  by (cases "strategy a") (simp_all add: strategy_phase_def Let_def js_mul_nonneg dbl_1_02_pos)

lemma wealthy_apply_ubi:
  "wealth (apply_ubi p a) = wealth a \<and> strategy (apply_ubi p a) = strategy a"
  by (simp add: apply_ubi_def)

lemma wealthy_apply_tax:
  "wealth (apply_tax p a) = wealth a \<and> strategy (apply_tax p a) = strategy a"
  by (simp add: apply_tax_def)

lemma wealthy_add_redistribution:
  "wealth (add_redistribution r a) = wealth a \<and> strategy (add_redistribution r a) = strategy a"
  by (simp add: add_redistribution_def)

lemma wealthy_deploy_agent:
  "js_le (Num 0) (wealth a) \<and> strategy a \<noteq> Save \<and> strategy a \<noteq> Spend \<Longrightarrow>
   js_le (Num 0) (wealth (deploy_agent x a)) \<and> strategy (deploy_agent x a) \<noteq> Save \<and>
   strategy (deploy_agent x a) \<noteq> Spend"
  by (simp add: deploy_agent_def js_mul_nonneg)

lemma wealthy_runStep:
  assumes "list_all (\<lambda>a. js_le (Num 0) (wealth a) \<and> strategy a \<noteq> Save \<and> strategy a \<noteq> Spend)
     (agents s)"
  shows "list_all (\<lambda>a. js_le (Num 0) (wealth a) \<and> strategy a \<noteq> Save \<and> strategy a \<noteq> Spend)
     (agents (runStep s))"
proof (rule runStep_keeps)
  show "list_all (\<lambda>a. js_le (Num 0) (wealth a) \<and> strategy a \<noteq> Save \<and> strategy a \<noteq> Spend)
     (agents s)"
    by (rule assms)
qed (simp_all add: wealthy_strategy_phase wealthy_apply_ubi wealthy_apply_tax
    wealthy_add_redistribution)

lemma wealthy_deployAGI:
  assumes "list_all (\<lambda>a. js_le (Num 0) (wealth a) \<and> strategy a \<noteq> Save \<and> strategy a \<noteq> Spend)
     (agents s)"
  shows "list_all (\<lambda>a. js_le (Num 0) (wealth a) \<and> strategy a \<noteq> Save \<and> strategy a \<noteq> Spend)
     (agents (deployAGI s))"
  using assms by (simp add: deployAGI_def list_all_iff wealthy_deploy_agent)

lemma wealthy_requestDeploy:
  assumes "list_all (\<lambda>a. js_le (Num 0) (wealth a) \<and> strategy a \<noteq> Save \<and> strategy a \<noteq> Spend)
     (agents s)"
  shows "list_all (\<lambda>a. js_le (Num 0) (wealth a) \<and> strategy a \<noteq> Save \<and> strategy a \<noteq> Spend)
     (agents (requestDeploy f s))"
  using assms wealthy_deployAGI [of s] by (simp add: requestDeploy_def)

lemma wealthy_run_operations:
  assumes "list_all (\<lambda>a. js_le (Num 0) (wealth a) \<and> strategy a \<noteq> Save \<and> strategy a \<noteq> Spend)
     (agents s)"
  shows "list_all (\<lambda>a. js_le (Num 0) (wealth a) \<and> strategy a \<noteq> Save \<and> strategy a \<noteq> Spend)
     (agents (run_operations ops s))"
  using assms
proof (induction ops s rule: run_operations.induct)
  case (1 s)
  then show ?case by simp
next
  case (2 ops s)
  show ?case using "2.IH" [OF wealthy_runStep [OF "2.prems"]] by simp
next
  case (3 ops s)
  show ?case using "3.IH" [OF wealthy_requestDeploy [OF "3.prems"]] by simp
qed

lemma not_save_spend:
  "(s \<noteq> Save \<and> s \<noteq> Spend) = (s \<in> {Normal, Invest, Regulate})"
  by (cases s) simp_all

text \<open>
  Claim C9. In every state reachable from an initialization by steps and
  deployments, every agent has a non-negative wealth (\<open>0 <= wealth\<close> holds: the
  wealth is a number from 0 on or, after an overflow, the positive infinity, never
  NaN) and one of the strategies normal, invest and regulate, which the
  initialization assigns: the branches for save and spend run for no reachable
  agent. On agents without those two strategies a step and a deployment keep the
  wealth non-negative.
\<close>

theorem reachable_wealth_nonnegative:
  "(\<forall>a\<in>set (agents (run_operations ops (Simulation b rnd))).
      js_le (Num 0) (wealth a) \<and> strategy a \<in> {Normal, Invest, Regulate}) \<and>
   ((\<forall>a\<in>set (agents s). js_le (Num 0) (wealth a) \<and> strategy a \<noteq> Save \<and> strategy a \<noteq> Spend) \<longrightarrow>
      (\<forall>a\<in>set (agents (runStep s)).
         js_le (Num 0) (wealth a) \<and> strategy a \<noteq> Save \<and> strategy a \<noteq> Spend) \<and>
      (\<forall>a\<in>set (agents (deployAGI s)).
         js_le (Num 0) (wealth a) \<and> strategy a \<noteq> Save \<and> strategy a \<noteq> Spend) \<and>
      (\<forall>a\<in>set (agents (requestDeploy True s)).
         js_le (Num 0) (wealth a) \<and> strategy a \<noteq> Save \<and> strategy a \<noteq> Spend))"
proof -
  have init: "list_all (\<lambda>a. js_le (Num 0) (wealth a) \<and> strategy a \<noteq> Save \<and> strategy a \<noteq> Spend)
      (agents (Simulation b rnd))"
    by (simp add: Simulation_def Let_def wealthy_initAgents)
  have "\<forall>a\<in>set (agents (run_operations ops (Simulation b rnd))).
      js_le (Num 0) (wealth a) \<and> strategy a \<in> {Normal, Invest, Regulate}"
    using wealthy_run_operations [OF init, of ops]
    unfolding list_all_iff not_save_spend [symmetric] by blast
  then show ?thesis
    using wealthy_runStep [of s] wealthy_deployAGI [of s] wealthy_requestDeploy [of s True]
    unfolding list_all_iff by blast
qed

lemma length_make_workers: "length (make_workers rnd k js) = length js"
  by (induction js arbitrary: k) simp_all

lemma length_make_capitalists: "length (make_capitalists rnd k js) = length js"
  by (induction js arbitrary: k) simp_all

lemma length_initAgents:
  "length (initAgents rnd n) =
     length (ids_below 0 (of_int \<lfloor>dbl (n * dbl (4 / 5))\<rfloor>)) +
     length (ids_below \<lfloor>dbl (n * dbl (4 / 5))\<rfloor> (of_int \<lfloor>dbl (n * dbl (999 / 1000))\<rfloor>)) +
     length (ids_below \<lfloor>dbl (n * dbl (999 / 1000))\<rfloor> n)"
  by (simp add: initAgents_def Let_def length_make_workers length_make_capitalists)

theorem reachable_wealth_nonnegative_witness:
  "list_all (\<lambda>a. js_le (Num 0) (wealth a) \<and> strategy a \<in> {Normal, Invest, Regulate})
     (agents (run_operations [Advance, Deploy, Advance]
        (Simulation (empty_request\<lparr> req_nAgents := Some 1000 \<rparr>) (\<lambda>k. 0)))) \<and>
   length (agents (run_operations [Advance, Deploy, Advance]
        (Simulation (empty_request\<lparr> req_nAgents := Some 1000 \<rparr>) (\<lambda>k. 0)))) = 1000 \<and>
   list_all (\<lambda>a. js_le (Num 0) (wealth a) \<and> strategy a \<noteq> Save \<and> strategy a \<noteq> Spend)
     (agents (runStep example_state)) \<and>
   list_all (\<lambda>a. js_le (Num 0) (wealth a) \<and> strategy a \<noteq> Save \<and> strategy a \<noteq> Spend)
     (agents (deployAGI example_state)) \<and>
   list_all (\<lambda>a. js_le (Num 0) (wealth a) \<and> strategy a \<noteq> Save \<and> strategy a \<noteq> Spend)
     (agents (requestDeploy True example_state)) \<and>
   map wealth (agents example_state) = [Num 10, Num 1000, Num 1000000]"
proof -
  have "length (agents (Simulation (empty_request\<lparr> req_nAgents := Some 1000 \<rparr>) (\<lambda>k. 0))) = 1000"
    using bands_1000
    by (simp add: Simulation_def Let_def make_params_def spread_def empty_request_def
        length_initAgents del: upto_rec_numeral)
  moreover have
    "\<forall>a\<in>set (agents example_state).
       js_le (Num 0) (wealth a) \<and> strategy a \<noteq> Save \<and> strategy a \<noteq> Spend"
    and "map wealth (agents example_state) = [Num 10, Num 1000, Num 1000000]"
    by (simp_all add: example_state_def example_agents_def js_le_def)
  ultimately show ?thesis
    using reachable_wealth_nonnegative [of "[Advance, Deploy, Advance]"
        "empty_request\<lparr> req_nAgents := Some 1000 \<rparr>" "\<lambda>k. 0" example_state]
    unfolding list_all_iff length_agents_run_operations by blast
qed

section \<open>The metrics on a population without wealth\<close>

lemma foldl_wealth:
  "foldl (\<lambda>sum a. js_add sum (wealth a)) z ags = foldl js_add z (map wealth ags)"
  by (induction ags arbitrary: z) simp_all

lemma set_js_insort: "set (js_insort x xs) = insert x (set xs)"
  by (induction xs) auto

lemma set_js_sort: "set (js_sort xs) = set xs"
  by (induction xs) (simp_all add: js_sort_def set_js_insort)

lemma length_js_insort: "length (js_insort x xs) = Suc (length xs)"
  by (induction xs) simp_all

lemma length_js_sort: "length (js_sort xs) = length xs"
  by (induction xs) (simp_all add: js_sort_def length_js_insort)

text \<open>
  A sum of non-negative numbers goes up with every summand, also when it is rounded:
  it is 0 only if it was 0 before and the summand counts as 0.
\<close>

lemma sum_step:
  assumes "nonneg_result acc" and "js_le (Num 0) w"
  shows "nonneg_result (js_add acc w)"
    and "js_add acc w = Num 0 \<Longrightarrow> acc = Num 0 \<and> js_add (Num 0) w = Num 0"
proof -
  from assms(2) consider "w = PosInfinity" | b where "w = Num b" "0 \<le> b"
    by (auto simp: js_le_zero_cases)
  then have "nonneg_result (js_add acc w) \<and>
    (js_add acc w = Num 0 \<longrightarrow> acc = Num 0 \<and> js_add (Num 0) w = Num 0)"
  proof cases
    case 1
    then show ?thesis using assms(1) by (auto simp: nonneg_result_def)
  next
    case 2
    from assms(1) consider "acc = PosInfinity" | a where "acc = Num a" "0 \<le> a" "dbl a = a"
      by (auto simp: nonneg_result_def)
    then show ?thesis
    proof cases
      case 1
      then show ?thesis using 2 by (simp add: nonneg_result_def)
    next
      case 2
      note acc = this
      have nn: "nonneg_result (fl (a + b))"
        using acc(2) \<open>0 \<le> b\<close> by (intro fl_nonneg) simp
      have ge: "a \<le> dbl (a + b)"
        using dbl_ge_rep [of a "a + b"] acc(3) \<open>0 \<le> b\<close> by simp
      have z: "a = 0 \<and> fl b = Num 0" if "fl (a + b) = Num 0"
      proof -
        from that have "dbl (a + b) = 0"
          by (simp add: fl_def Let_def split: if_splits)
        with ge acc(2) have "a = 0" by simp
        with that show ?thesis by simp
      qed
      show ?thesis using nn z by (simp add: acc(1) \<open>w = Num b\<close>)
    qed
  qed
  then show "nonneg_result (js_add acc w)"
    and "js_add acc w = Num 0 \<Longrightarrow> acc = Num 0 \<and> js_add (Num 0) w = Num 0"
    by simp_all
qed

lemma sum_zero_iff:
  assumes "nonneg_result acc" and "\<forall>w\<in>set ws. js_le (Num 0) w"
  shows "(foldl js_add acc ws = Num 0) =
     (acc = Num 0 \<and> (\<forall>w\<in>set ws. js_add (Num 0) w = Num 0))"
  using assms
proof (induction ws arbitrary: acc)
  case Nil
  show ?case by simp
next
  case (Cons w ws)
  have w: "js_le (Num 0) w" and ws: "\<forall>w\<in>set ws. js_le (Num 0) w"
    using Cons.prems(2) by simp_all
  note st = sum_step [OF Cons.prems(1) w]
  have "(foldl js_add acc (w # ws) = Num 0) =
      (js_add acc w = Num 0 \<and> (\<forall>w\<in>set ws. js_add (Num 0) w = Num 0))"
    using Cons.IH [OF st(1) ws] by simp
  also have "(js_add acc w = Num 0) = (acc = Num 0 \<and> js_add (Num 0) w = Num 0)"
    using st(2) by auto
  finally show ?case by auto
qed

lemma nonneg_result_zero: "nonneg_result (Num 0)"
  by (simp add: nonneg_result_def)

lemma sorted_sum_zero:
  assumes "\<forall>w\<in>set ws. js_le (Num 0) w" and "foldl js_add (Num 0) ws = Num 0"
  shows "foldl js_add (Num 0) (js_sort ws) = Num 0"
proof -
  have "\<forall>w\<in>set ws. js_add (Num 0) w = Num 0"
    using assms sum_zero_iff [OF nonneg_result_zero assms(1)] by simp
  moreover have "\<forall>w\<in>set (js_sort ws). js_le (Num 0) w"
    using assms(1) by (simp add: set_js_sort)
  ultimately show ?thesis
    using sum_zero_iff [OF nonneg_result_zero, of "js_sort ws"] by (simp add: set_js_sort)
qed

text \<open>
  Claim C3. When no agent has a negative wealth and the total wealth, summed as
  \<open>calculateVelocity\<close> sums it, is 0, and in particular when there is no agent,
  \<open>calculateGini\<close> and \<open>calculateVelocity\<close> both return the number 0, neither NaN nor
  an infinity.
\<close>

theorem zero_total_wealth_metrics:
  "((\<forall>a\<in>set ags. js_le (Num 0) (wealth a)) \<and>
    foldl (\<lambda>sum a. js_add sum (wealth a)) (Num 0) ags = Num 0 \<longrightarrow>
      calculateGini ags = Num 0 \<and> calculateVelocity ags = Num 0) \<and>
   calculateGini [] = Num 0 \<and> calculateVelocity [] = Num 0"
proof (intro conjI impI)
  assume h: "(\<forall>a\<in>set ags. js_le (Num 0) (wealth a)) \<and>
    foldl (\<lambda>sum a. js_add sum (wealth a)) (Num 0) ags = Num 0"
  then have "foldl js_add (Num 0) (js_sort (map wealth ags)) = Num 0"
    by (intro sorted_sum_zero) (simp_all add: foldl_wealth)
  then show "calculateGini ags = Num 0"
    by (simp add: calculateGini_def Let_def js_eq_def)
  show "calculateVelocity ags = Num 0"
    using h by (simp add: calculateVelocity_def Let_def)
next
  show "calculateGini [] = Num 0"
    by (simp add: calculateGini_def Let_def js_sort_def js_eq_def)
  show "calculateVelocity [] = Num 0"
    by (simp add: calculateVelocity_def Let_def)
qed

theorem zero_total_wealth_metrics_witness:
  "calculateGini [agent_with_wealth (Num 0), agent_with_wealth (Num 0)] = Num 0 \<and>
   calculateVelocity [agent_with_wealth (Num 0), agent_with_wealth (Num 0)] = Num 0"
  using zero_total_wealth_metrics [of "[agent_with_wealth (Num 0), agent_with_wealth (Num 0)]"]
  by (simp add: agent_with_wealth_def js_le_def)

text \<open>
  Without the condition on the signs the two sums can differ, for \<open>calculateGini\<close>
  sums the sorted wealths: the wealths \<open>2 ^ 53\<close>, 1 and \<open>- 2 ^ 53\<close> have the total 0
  in that order and the total 1 once sorted.
\<close>

section \<open>The compute tax\<close>

lemma apply_ubi_with_tax: "apply_ubi (p\<lparr> computeTax := c \<rparr>) = apply_ubi p"
  by (rule ext) (simp add: apply_ubi_def)

lemma policy_phase_not_deployed:
  "policy_phase (p\<lparr> computeTax := c \<rparr>) False ags = policy_phase p False ags"
  by (simp add: policy_phase_def Let_def apply_ubi_with_tax)

lemma agents_with_computeTax: "agents (with_computeTax c s) = agents s"
  by (simp add: with_computeTax_def)

lemma runStep_tax_inert:
  "\<not> agiDeployed s \<Longrightarrow> runStep (with_computeTax c s) = with_computeTax c (runStep s)"
  by (simp add: runStep_def with_computeTax_def Let_def policy_phase_not_deployed)

lemma runSteps_tax_inert:
  "\<not> agiDeployed s \<Longrightarrow> runSteps n (with_computeTax c s) = with_computeTax c (runSteps n s)"
  by (induction n arbitrary: s) (simp_all add: runStep_tax_inert agiDeployed_runStep)

lemma capitalist_policy_phase:
  assumes "i < length ags" and "type_agent (ags ! i) = Capitalist"
  shows "income (policy_phase p d ags ! i) =
     (if 0 < computeTax p \<and> d then js_sub (income (ags ! i)) (tax_of p (ags ! i))
      else income (ags ! i))"
  using assms
  by (simp add: policy_phase_def compute_tax_phase_def Let_def apply_ubi_def apply_tax_def
      add_redistribution_def)

lemma capitalist_runStep:
  assumes "i < length (agents s)" and "type_agent (agents s ! i) = Capitalist"
  shows "income (agents (runStep s) ! i) =
     (if 0 < computeTax (params s) \<and> agiDeployed s
      then js_sub (income (strategy_phase (agents s ! i)))
        (tax_of (params s) (strategy_phase (agents s ! i)))
      else income (strategy_phase (agents s ! i)))"
  using assms
  by (simp add: agents_runStep capitalist_policy_phase type_strategy_phase)

text \<open>
  Claim C5. While the AGI is not deployed, any number of steps with
  \<open>computeTax = 0.5\<close> gives the same agents, and so the same capitalist incomes, as
  the same steps with \<open>computeTax = 0\<close>: from an initialization with either rate and
  the same random draws, and from any state not yet deployed. Once it is deployed,
  one step with \<open>computeTax = 0.5\<close> subtracts \<open>income * (1 - 1 / agiBoost) * 0.5\<close>,
  computed with the operations of the code on doubles, from the income of each
  capitalist, the income being the one the strategy phase of that step has left,
  which is what the step with \<open>computeTax = 0\<close> gives. This holds for every
  \<open>agiBoost\<close>, 0 included, where the quotient is an infinity.
\<close>

theorem compute_tax_only_after_deployment:
  "agents (runSteps n (Simulation (b\<lparr> req_computeTax := Some 0.5 \<rparr>) rnd)) =
     agents (runSteps n (Simulation (b\<lparr> req_computeTax := Some 0 \<rparr>) rnd)) \<and>
   (\<not> agiDeployed s \<longrightarrow>
      agents (runSteps n (with_computeTax 0.5 s)) = agents (runSteps n (with_computeTax 0 s)) \<and>
      map income (filter (\<lambda>a. type_agent a = Capitalist) (agents (runSteps n (with_computeTax 0.5 s)))) =
      map income (filter (\<lambda>a. type_agent a = Capitalist) (agents (runSteps n (with_computeTax 0 s))))) \<and>
   (agiDeployed s \<longrightarrow>
      (\<forall>i<length (agents s). type_agent (agents s ! i) = Capitalist \<longrightarrow>
         income (agents (runStep (with_computeTax 0 s)) ! i) =
           income (strategy_phase (agents s ! i)) \<and>
         income (agents (runStep (with_computeTax 0.5 s)) ! i) =
           js_sub (income (strategy_phase (agents s ! i)))
             (js_mul
               (js_mul (income (strategy_phase (agents s ! i)))
                 (js_sub (Num 1) (js_div (Num 1) (Num (agiBoost (params s))))))
               (Num 0.5))))"
proof (intro conjI impI allI)
  have "Simulation (b\<lparr> req_computeTax := Some c \<rparr>) rnd = with_computeTax c (Simulation b rnd)"
    for c
    by (simp add: Simulation_def with_computeTax_def make_params_def spread_def Let_def)
  moreover have "\<not> agiDeployed (Simulation b rnd)"
    by (simp add: Simulation_def Let_def)
  ultimately show "agents (runSteps n (Simulation (b\<lparr> req_computeTax := Some 0.5 \<rparr>) rnd)) =
      agents (runSteps n (Simulation (b\<lparr> req_computeTax := Some 0 \<rparr>) rnd))"
    by (simp add: runSteps_tax_inert agents_with_computeTax)
next
  assume "\<not> agiDeployed s"
  then show "agents (runSteps n (with_computeTax 0.5 s)) = agents (runSteps n (with_computeTax 0 s))"
    by (simp add: runSteps_tax_inert agents_with_computeTax)
  then show "map income (filter (\<lambda>a. type_agent a = Capitalist) (agents (runSteps n (with_computeTax 0.5 s)))) =
      map income (filter (\<lambda>a. type_agent a = Capitalist) (agents (runSteps n (with_computeTax 0 s))))"
    by simp
next
  fix i
  assume "agiDeployed s" and "i < length (agents s)"
    and "type_agent (agents s ! i) = Capitalist"
  then show "income (agents (runStep (with_computeTax 0 s)) ! i) =
      income (strategy_phase (agents s ! i))"
    by (simp add: capitalist_runStep with_computeTax_def)
next
  fix i
  assume "agiDeployed s" and "i < length (agents s)"
    and "type_agent (agents s ! i) = Capitalist"
  then show "income (agents (runStep (with_computeTax 0.5 s)) ! i) =
      js_sub (income (strategy_phase (agents s ! i)))
        (js_mul
          (js_mul (income (strategy_phase (agents s ! i)))
            (js_sub (Num 1) (js_div (Num 1) (Num (agiBoost (params s))))))
          (Num 0.5))"
    by (simp add: capitalist_runStep with_computeTax_def tax_of_def Let_def)
qed

text \<open>
  The example: a capitalist with the income 500 and \<open>agiBoost = 5\<close>. The deployment
  makes the income 2500, the strategy phase of the next step 2505, and the tax
  takes 1002 of it; every one of these values is the double that the code computes.
\<close>

lemma dbl_1_002: "dbl (501 / 500) = 4512606826625237 / 2 ^ 52"
  using dbl_eval_pos [of 0 "501 / 500" 4512606826625237]
  by (simp add: power_int_minus)

lemma example_invest: "js_mul (Num 2500) (Num (dbl (501 / 500))) = Num 2505"
  unfolding dbl_1_002
  using fl_eval_pos [of 11 "2500 * (4512606826625237 / 2 ^ 52)" "2505 * 2 ^ 41"]
  by (simp add: power_int_minus)

lemma example_tax:
  "js_sub (Num 2505)
     (js_mul (js_mul (Num 2505) (js_sub (Num 1) (js_div (Num 1) (Num 5)))) (Num (1 / 2))) =
   Num 1503"
proof -
  have d: "js_div (Num 1) (Num 5) = Num (3602879701896397 / 2 ^ 54)"
    using fl_eval_pos [of "- 3" "1 / 5" 7205759403792794]
    by (simp add: power_int_minus)
  have s1: "js_sub (Num 1) (Num (3602879701896397 / 2 ^ 54)) = Num (3602879701896397 / 2 ^ 52)"
    using fl_eval_pos [of "- 1" "1 - 3602879701896397 / 2 ^ 54" 7205759403792794]
    by (simp add: js_sub_def power_int_minus)
  have m1: "js_mul (Num 2505) (Num (3602879701896397 / 2 ^ 52)) = Num 2004"
    using fl_eval_pos [of 10 "2505 * (3602879701896397 / 2 ^ 52)" "2004 * 2 ^ 42"]
    by (simp add: power_int_minus)
  have m2: "js_mul (Num 2004) (Num (1 / 2)) = Num 1002"
    using fl_int [of 1002] by simp
  have s2: "js_sub (Num 2505) (Num 1002) = Num 1503"
    using fl_int [of 1503] by (simp add: js_sub_def)
  show ?thesis unfolding d s1 m1 m2 s2 by (rule refl)
qed

theorem compute_tax_only_after_deployment_witness:
  "\<not> agiDeployed example_state \<and>
   agents (runSteps 3 (with_computeTax 0.5 example_state)) =
     agents (runSteps 3 (with_computeTax 0 example_state)) \<and>
   agiDeployed (deployAGI example_state) \<and>
   type_agent (agents (deployAGI example_state) ! 1) = Capitalist \<and>
   income (agents (deployAGI example_state) ! 1) = Num 2500 \<and>
   income (agents (runStep (with_computeTax 0 (deployAGI example_state))) ! 1) = Num 2505 \<and>
   income (agents (runStep (with_computeTax 0.5 (deployAGI example_state))) ! 1) = Num 1503"
proof -
  have a: "\<not> agiDeployed example_state"
    by (simp add: example_state_def)
  have d: "agiDeployed (deployAGI example_state)"
    by (simp add: deployAGI_def)
  have l: "1 < length (agents (deployAGI example_state))"
    by (simp add: deployAGI_def example_state_def example_agents_def)
  have f: "fl 2500 = Num 2500"
    using fl_int [of 2500] by simp
  have c: "type_agent (agents (deployAGI example_state) ! 1) = Capitalist \<and>
      strategy (agents (deployAGI example_state) ! 1) = Invest \<and>
      income (agents (deployAGI example_state) ! 1) = Num 2500"
    by (simp add: deployAGI_def deploy_agent_def example_state_def example_agents_def
        example_params_def f)
  have s: "income (strategy_phase (agents (deployAGI example_state) ! 1)) = Num 2505"
    using c example_invest by (simp add: strategy_phase_def)
  have b: "agiBoost (params (deployAGI example_state)) = 5"
    by (simp add: deployAGI_def example_state_def example_params_def)
  have "income (agents (runStep (with_computeTax 0 (deployAGI example_state))) ! 1) =
      income (strategy_phase (agents (deployAGI example_state) ! 1)) \<and>
    income (agents (runStep (with_computeTax 0.5 (deployAGI example_state))) ! 1) =
      js_sub (income (strategy_phase (agents (deployAGI example_state) ! 1)))
        (js_mul
          (js_mul (income (strategy_phase (agents (deployAGI example_state) ! 1)))
            (js_sub (Num 1) (js_div (Num 1) (Num (agiBoost (params (deployAGI example_state)))))))
          (Num 0.5))"
    using compute_tax_only_after_deployment
        [where s = "deployAGI example_state" and n = 0 and b = empty_request and rnd = "\<lambda>k. 0"]
      d l c by blast
  then have "income (agents (runStep (with_computeTax 0 (deployAGI example_state))) ! 1) = Num 2505"
    and "income (agents (runStep (with_computeTax 0.5 (deployAGI example_state))) ! 1) = Num 1503"
    unfolding s b using example_tax by simp_all
  moreover have "agents (runSteps 3 (with_computeTax 0.5 example_state)) =
      agents (runSteps 3 (with_computeTax 0 example_state))"
    using compute_tax_only_after_deployment
        [where s = example_state and n = 3 and b = empty_request and rnd = "\<lambda>k. 0"] a by blast
  ultimately show ?thesis using a d c by blast
qed

text \<open>
  With \<open>agiBoost = 0\<close>, which the initialization stores when the input holds it, the
  quotient \<open>1 / agiBoost\<close> is the positive infinity and the tax of a capitalist with a
  positive income the negative one: the step leaves the income infinite.
\<close>

lemma compute_tax_zero_boost:
  assumes "agiDeployed s" and "agiBoost (params s) = 0"
    and "i < length (agents s)" and "type_agent (agents s ! i) = Capitalist"
    and "income (strategy_phase (agents s ! i)) = Num x" and "0 < x"
  shows "income (agents (runStep (with_computeTax 0.5 s)) ! i) = PosInfinity"
  using assms
  by (simp add: capitalist_runStep with_computeTax_def tax_of_def Let_def js_sub_def)

section \<open>The universal basic income\<close>

lemma policy_phase_ubi_only:
  "0 < ubi p \<Longrightarrow> policy_phase p False ags = map (apply_ubi p) ags"
  by (simp add: policy_phase_def Let_def)

lemma agents_runStep_ubi:
  assumes "0 < ubi (params s)" and "\<not> agiDeployed s"
  shows "agents (runStep s) = map (apply_ubi (params s) \<circ> strategy_phase) (agents s)"
  using assms by (simp add: agents_runStep policy_phase_ubi_only)

lemma worker_ubi_step:
  assumes "type_agent a = Worker" and "strategy a = Normal"
  shows "income (apply_ubi p (strategy_phase a)) = js_add (income a) (Num (ubi p))"
  using assms by (simp add: apply_ubi_def strategy_phase_def Let_def)

lemma ubi_step_fields:
  "type_agent (apply_ubi p (strategy_phase a)) = type_agent a"
  "strategy (apply_ubi p (strategy_phase a)) = strategy a"
  "id_agent (apply_ubi p (strategy_phase a)) = id_agent a"
  by (simp_all add: apply_ubi_def strategy_phase_def Let_def split: strategy_kind.split)

lemma workers_runStep_ubi:
  assumes "0 < ubi (params s)" and "\<not> agiDeployed s"
    and "list_all (\<lambda>a. type_agent a = Worker \<longrightarrow> strategy a = Normal) (agents s)"
  shows "map income (filter (\<lambda>a. type_agent a = Worker) (agents (runStep s))) =
      map (\<lambda>x. js_add x (Num (ubi (params s))))
        (map income (filter (\<lambda>a. type_agent a = Worker) (agents s)))"
    and "map id_agent (filter (\<lambda>a. type_agent a = Worker) (agents (runStep s))) =
      map id_agent (filter (\<lambda>a. type_agent a = Worker) (agents s))"
    and "list_all (\<lambda>a. type_agent a = Worker \<longrightarrow> strategy a = Normal) (agents (runStep s))"
proof -
  let ?f = "apply_ubi (params s) \<circ> strategy_phase"
  let ?W = "\<lambda>a. type_agent a = Worker"
  have f: "filter ?W (agents (runStep s)) = map ?f (filter ?W (agents s))"
    by (simp add: agents_runStep_ubi [OF assms(1,2)] filter_map o_def ubi_step_fields)
  have "\<forall>a\<in>set (filter ?W (agents s)).
      income (?f a) = js_add (income a) (Num (ubi (params s)))"
    using assms(3) by (simp add: list_all_iff worker_ubi_step)
  then show "map income (filter ?W (agents (runStep s))) =
      map (\<lambda>x. js_add x (Num (ubi (params s)))) (map income (filter ?W (agents s)))"
    unfolding f by (simp add: o_def)
  show "map id_agent (filter ?W (agents (runStep s))) = map id_agent (filter ?W (agents s))"
    unfolding f by (simp add: o_def ubi_step_fields)
  show "list_all (\<lambda>a. type_agent a = Worker \<longrightarrow> strategy a = Normal) (agents (runStep s))"
    using assms(3)
    by (simp add: agents_runStep_ubi [OF assms(1,2)] list_all_iff ubi_step_fields)
qed

lemma workers_runSteps_ubi:
  assumes "0 < ubi (params s)" and "\<not> agiDeployed s"
    and "list_all (\<lambda>a. type_agent a = Worker \<longrightarrow> strategy a = Normal) (agents s)"
  shows "map income (filter (\<lambda>a. type_agent a = Worker) (agents (runSteps n s))) =
      map ((\<lambda>x. js_add x (Num (ubi (params s)))) ^^ n)
        (map income (filter (\<lambda>a. type_agent a = Worker) (agents s))) \<and>
    map id_agent (filter (\<lambda>a. type_agent a = Worker) (agents (runSteps n s))) =
      map id_agent (filter (\<lambda>a. type_agent a = Worker) (agents s))"
  using assms
proof (induction n arbitrary: s)
  case 0
  then show ?case by simp
next
  case (Suc n)
  have p: "0 < ubi (params (runStep s))" and d: "\<not> agiDeployed (runStep s)"
    using Suc.prems by (simp_all add: params_runStep agiDeployed_runStep)
  note st = workers_runStep_ubi [OF Suc.prems]
  from Suc.IH [OF p d st(3)] show ?case
    by (simp add: st(1,2) params_runStep o_def funpow_Suc_right del: funpow.simps)
qed

lemma workers_make_workers:
  "filter (\<lambda>a. type_agent a = Worker) (make_workers rnd k js) = make_workers rnd k js"
  by (induction js arbitrary: k) simp_all

lemma workers_make_capitalists:
  "filter (\<lambda>a. type_agent a = Worker) (make_capitalists rnd k js) = []"
  by (induction js arbitrary: k) simp_all

lemma workers_make_government:
  "filter (\<lambda>a. type_agent a = Worker) (map make_government js) = []"
  by (induction js) (simp_all add: make_government_def)

lemma workers_initAgents:
  "filter (\<lambda>a. type_agent a = Worker) (initAgents rnd n) =
     make_workers rnd 0 (ids_below 0 (of_int \<lfloor>dbl (n * dbl (4 / 5))\<rfloor>))"
  by (simp add: initAgents_def Let_def workers_make_workers workers_make_capitalists
      workers_make_government)

lemma normal_make_workers:
  "list_all (\<lambda>a. type_agent a = Worker \<longrightarrow> strategy a = Normal) (make_workers rnd k js)"
  by (induction js arbitrary: k) simp_all

lemma normal_make_capitalists:
  "list_all (\<lambda>a. type_agent a = Worker \<longrightarrow> strategy a = Normal) (make_capitalists rnd k js)"
  by (induction js arbitrary: k) simp_all

lemma normal_initAgents:
  "list_all (\<lambda>a. type_agent a = Worker \<longrightarrow> strategy a = Normal) (initAgents rnd n)"
  by (simp add: initAgents_def Let_def normal_make_workers normal_make_capitalists)
    (simp add: list_all_iff make_government_def)

lemma ubi_scenario_fields:
  "params (ubi_scenario b rnd) = (make_params b)\<lparr> nAgents := 100, ubi := 50, computeTax := 0 \<rparr>"
  "agents (ubi_scenario b rnd) = initAgents rnd 100"
  "step (ubi_scenario b rnd) = 0"
  "history (ubi_scenario b rnd) = empty_history"
  "\<not> agiDeployed (ubi_scenario b rnd)"
  by (simp_all add: ubi_scenario_def Simulation_def Let_def make_params_def spread_def
      or_default_def)

lemma workers_bound_100: "dbl (100 * dbl (4 / 5)) = 80"
  unfolding dbl_0_8
  using dbl_eval_pos [of 6 "100 * (3602879701896397 / 2 ^ 52)" "80 * 2 ^ 46"]
  by (simp add: power_int_minus)

text \<open>
  The income of a worker at its creation, \<open>100 + (Math.random() - 0.5) * 40\<close>, is a
  double from 80 to 120, a multiple of \<open>2 ^ -46\<close>. Adding 50 to it five times rounds
  at most twice, to multiples of \<open>2 ^ -45\<close> and of \<open>2 ^ -44\<close>; adding 250 at once rounds
  once, to a multiple of \<open>2 ^ -44\<close>, the same one.
\<close>

lemma dbl_binade6: "64 \<le> x \<Longrightarrow> x < 128 \<Longrightarrow> dbl x = of_int (rne (x * 2 ^ 46)) / 2 ^ 46"
  using dbl_binade [of 6 x] by (simp add: power_int_minus field_simps)

lemma dbl_binade7: "128 \<le> x \<Longrightarrow> x < 256 \<Longrightarrow> dbl x = of_int (rne (x * 2 ^ 45)) / 2 ^ 45"
  using dbl_binade [of 7 x] by (simp add: power_int_minus field_simps)

lemma dbl_binade8: "256 \<le> x \<Longrightarrow> x < 512 \<Longrightarrow> dbl x = of_int (rne (x * 2 ^ 44)) / 2 ^ 44"
  using dbl_binade [of 8 x] by (simp add: power_int_minus field_simps)

lemma dbl_small_int: "dbl 80 = 80" "dbl 120 = 120" "dbl 20 = 20" "dbl (1 / 2) = 1 / 2"
  using dbl_rep [of 80 0] dbl_rep [of 120 0] dbl_rep [of 20 0] dbl_rep [of 1 "- 1"]
  by (simp_all add: power_int_minus)

lemma initial_income:
  assumes "0 \<le> r" and "r < 1"
  shows "\<exists>k. js_add (Num 100) (js_mul (js_sub (Num r) (Num (1 / 2))) (Num 40)) =
           Num (of_int k / 2 ^ 46) \<and>
         80 * 2 ^ 46 \<le> k \<and> k \<le> 120 * 2 ^ 46"
proof -
  define d1 where "d1 = dbl (r - 1 / 2)"
  define d2 where "d2 = dbl (d1 * 40)"
  define x0 where "x0 = dbl (100 + d2)"
  have r: "\<bar>r - 1 / 2\<bar> \<le> 1 / 2" using assms by linarith
  then have b1: "\<bar>d1\<bar> \<le> 1 / 2"
    unfolding d1_def using dbl_small_int(4) by (rule dbl_abs_le_rep)
  have f1: "js_sub (Num r) (Num (1 / 2)) = Num d1"
    using r fl_bounded [of "r - 1 / 2" "- 1"] by (simp add: js_sub_def d1_def power_int_minus)
  have m: "\<bar>d1 * 40\<bar> \<le> 20" using b1 by (simp add: abs_mult)
  then have b2: "\<bar>d2\<bar> \<le> 20"
    unfolding d2_def using dbl_small_int(3) by (rule dbl_abs_le_rep)
  have f2: "js_mul (Num d1) (Num 40) = Num d2"
    using m fl_bounded [of "d1 * 40" 5] by (simp add: d2_def)
  have s: "80 \<le> 100 + d2" "100 + d2 \<le> 120" using b2 by linarith+
  then have b3: "80 \<le> x0" "x0 \<le> 120"
    unfolding x0_def
    using dbl_ge_rep [of 80 "100 + d2"] dbl_le_rep [of "100 + d2" 120] dbl_small_int(1,2)
    by simp_all
  have f3: "js_add (Num 100) (Num d2) = Num x0"
    using s fl_bounded [of "100 + d2" 7] by (simp add: x0_def)
  define k where "k = rne ((100 + d2) * 2 ^ 46)"
  have x0: "x0 = of_int k / 2 ^ 46"
    unfolding x0_def k_def using s by (intro dbl_binade6) simp_all
  have "(of_int (80 * 2 ^ 46) :: real) \<le> of_int k" "(of_int k :: real) \<le> of_int (120 * 2 ^ 46)"
    using b3 unfolding x0 by (simp_all add: field_simps)
  then have "80 * 2 ^ 46 \<le> k" "k \<le> 120 * 2 ^ 46"
    unfolding of_int_le_iff by simp_all
  then show ?thesis using f1 f2 f3 x0 by auto
qed



lemma rne_half_shift: "rne (of_int (m + 4 * c) / 2) = rne (of_int m / 2) + 2 * c"
proof -
  have "(of_int (m + 4 * c) :: real) / 2 = of_int m / 2 + of_int (2 * c)" by simp
  then show ?thesis by (simp only: rne_add_even)
qed

lemma rne_quarter_shift: "rne (of_int (m + 8 * c) / 4) = rne (of_int m / 4) + 2 * c"
proof -
  have "(of_int (m + 8 * c) :: real) / 4 = of_int m / 4 + of_int (2 * c)" by simp
  then show ?thesis by (simp only: rne_add_even)
qed

lemma grid7_exact:
  assumes "128 * 2 ^ 45 \<le> m" and "m < 256 * 2 ^ 45"
  shows "dbl (of_int m / 2 ^ 45) = of_int m / 2 ^ 45"
proof -
  have "(of_int (128 * 2 ^ 45) :: real) \<le> of_int m" "(of_int m :: real) < of_int (256 * 2 ^ 45)"
    using assms unfolding of_int_le_iff of_int_less_iff by simp_all
  then have "128 \<le> (of_int m :: real) / 2 ^ 45" "(of_int m :: real) / 2 ^ 45 < 256"
    by (simp_all add: field_simps)
  then show ?thesis using dbl_binade7 [of "of_int m / 2 ^ 45"] by simp
qed

lemma grid8_exact:
  assumes "256 * 2 ^ 44 \<le> m" and "m < 512 * 2 ^ 44"
  shows "dbl (of_int m / 2 ^ 44) = of_int m / 2 ^ 44"
proof -
  have "(of_int (256 * 2 ^ 44) :: real) \<le> of_int m" "(of_int m :: real) < of_int (512 * 2 ^ 44)"
    using assms unfolding of_int_le_iff of_int_less_iff by simp_all
  then have "256 \<le> (of_int m :: real) / 2 ^ 44" "(of_int m :: real) / 2 ^ 44 < 512"
    by (simp_all add: field_simps)
  then show ?thesis using dbl_binade8 [of "of_int m / 2 ^ 44"] by simp
qed

lemma grid7_round:
  assumes "128 * 2 ^ 46 \<le> m" and "m < 256 * 2 ^ 46"
  shows "dbl (of_int m / 2 ^ 46) = of_int (rne (of_int m / 2)) / 2 ^ 45"
proof -
  have "(of_int (128 * 2 ^ 46) :: real) \<le> of_int m" "(of_int m :: real) < of_int (256 * 2 ^ 46)"
    using assms unfolding of_int_le_iff of_int_less_iff by simp_all
  then have "128 \<le> (of_int m :: real) / 2 ^ 46" "(of_int m :: real) / 2 ^ 46 < 256"
    by (simp_all add: field_simps)
  moreover have "(of_int m :: real) / 2 ^ 46 * 2 ^ 45 = of_int m / 2" by simp
  ultimately show ?thesis using dbl_binade7 [of "of_int m / 2 ^ 46"] by simp
qed

lemma grid8_round:
  assumes "256 * 2 ^ 45 \<le> m" and "m < 512 * 2 ^ 45"
  shows "dbl (of_int m / 2 ^ 45) = of_int (rne (of_int m / 2)) / 2 ^ 44"
proof -
  have "(of_int (256 * 2 ^ 45) :: real) \<le> of_int m" "(of_int m :: real) < of_int (512 * 2 ^ 45)"
    using assms unfolding of_int_le_iff of_int_less_iff by simp_all
  then have "256 \<le> (of_int m :: real) / 2 ^ 45" "(of_int m :: real) / 2 ^ 45 < 512"
    by (simp_all add: field_simps)
  moreover have "(of_int m :: real) / 2 ^ 45 * 2 ^ 44 = of_int m / 2" by simp
  ultimately show ?thesis using dbl_binade8 [of "of_int m / 2 ^ 45"] by simp
qed

lemma grid8_round4:
  assumes "256 * 2 ^ 46 \<le> m" and "m < 512 * 2 ^ 46"
  shows "dbl (of_int m / 2 ^ 46) = of_int (rne (of_int m / 4)) / 2 ^ 44"
proof -
  have "(of_int (256 * 2 ^ 46) :: real) \<le> of_int m" "(of_int m :: real) < of_int (512 * 2 ^ 46)"
    using assms unfolding of_int_le_iff of_int_less_iff by simp_all
  then have "256 \<le> (of_int m :: real) / 2 ^ 46" "(of_int m :: real) / 2 ^ 46 < 512"
    by (simp_all add: field_simps)
  moreover have "(of_int m :: real) / 2 ^ 46 * 2 ^ 44 = of_int m / 4" by simp
  ultimately show ?thesis using dbl_binade8 [of "of_int m / 2 ^ 46"] by simp
qed


lemma five_roundings:
  assumes "80 * 2 ^ 46 \<le> k" and "k \<le> 120 * 2 ^ 46"
  shows "\<exists>a1 a2 a3 a4.
     dbl (of_int k / 2 ^ 46 + 50) = a1 \<and> \<bar>a1\<bar> \<le> 512 \<and>
     dbl (a1 + 50) = a2 \<and> \<bar>a2\<bar> \<le> 512 \<and>
     dbl (a2 + 50) = a3 \<and> \<bar>a3\<bar> \<le> 512 \<and>
     dbl (a3 + 50) = a4 \<and> \<bar>a4\<bar> \<le> 512 \<and>
     dbl (a4 + 50) = dbl (of_int k / 2 ^ 46 + 250) \<and>
     \<bar>dbl (of_int k / 2 ^ 46 + 250)\<bar> \<le> 512"
proof -
  define j where "j = rne (of_int k / 2)"
  define i where "i = rne (of_int j / 2)"
  have "(of_int (80 * 2 ^ 45) :: real) \<le> of_int k / 2" "(of_int k :: real) / 2 \<le> of_int (120 * 2 ^ 45)"
    using assms by simp_all
  then have jb: "80 * 2 ^ 45 \<le> j" "j \<le> 120 * 2 ^ 45"
    unfolding j_def by (simp_all only: rne_ge rne_le)
  then have "(of_int (80 * 2 ^ 44) :: real) \<le> of_int j / 2" "(of_int j :: real) / 2 \<le> of_int (120 * 2 ^ 44)"
    by simp_all
  then have ib: "80 * 2 ^ 44 \<le> i" "i \<le> 120 * 2 ^ 44"
    unfolding i_def by (simp_all only: rne_ge rne_le)
  have i4: "rne (of_int k / 4) = i"
    unfolding i_def j_def by (simp only: rne_half_half)
  have a1: "dbl (of_int k / 2 ^ 46 + 50) = of_int (j + 2 * (25 * 2 ^ 45)) / 2 ^ 45"
  proof -
    have e: "(of_int k :: real) / 2 ^ 46 + 50 = of_int (k + 4 * (25 * 2 ^ 45)) / 2 ^ 46"
      by simp
    have g: "dbl (of_int (k + 4 * (25 * 2 ^ 45)) / 2 ^ 46) =
        of_int (rne (of_int (k + 4 * (25 * 2 ^ 45)) / 2)) / 2 ^ 45"
      using assms by (intro grid7_round) simp_all
    show ?thesis unfolding e g rne_half_shift j_def by (rule refl)
  qed
  have a2: "dbl (of_int (j + 2 * (25 * 2 ^ 45)) / 2 ^ 45 + 50) = of_int (j + 100 * 2 ^ 45) / 2 ^ 45"
  proof -
    have e: "(of_int (j + 2 * (25 * 2 ^ 45)) :: real) / 2 ^ 45 + 50 =
        of_int (j + 100 * 2 ^ 45) / 2 ^ 45"
      by simp
    have g: "dbl (of_int (j + 100 * 2 ^ 45) / 2 ^ 45) = of_int (j + 100 * 2 ^ 45) / 2 ^ 45"
      using jb by (intro grid7_exact) simp_all
    show ?thesis unfolding e g by (rule refl)
  qed
  have rj: "(of_int j :: real) \<le> of_int (120 * 2 ^ 45)" "(of_int (80 * 2 ^ 45) :: real) \<le> of_int j"
    using jb unfolding of_int_le_iff by simp_all
  have ri: "(of_int i :: real) \<le> of_int (120 * 2 ^ 44)" "(of_int (80 * 2 ^ 44) :: real) \<le> of_int i"
    using ib unfolding of_int_le_iff by simp_all
  have a34: "\<exists>a3. dbl (of_int (j + 100 * 2 ^ 45) / 2 ^ 45 + 50) = a3 \<and> \<bar>a3\<bar> \<le> 512 \<and>
      dbl (a3 + 50) = of_int (i + 2 * (50 * 2 ^ 45)) / 2 ^ 44"
  proof (cases "j + 150 * 2 ^ 45 < 256 * 2 ^ 45")
    case True
    have e3: "(of_int (j + 100 * 2 ^ 45) :: real) / 2 ^ 45 + 50 = of_int (j + 150 * 2 ^ 45) / 2 ^ 45"
      by simp
    have g3: "dbl (of_int (j + 150 * 2 ^ 45) / 2 ^ 45) = of_int (j + 150 * 2 ^ 45) / 2 ^ 45"
      using jb True by (intro grid7_exact) simp_all
    have e4: "(of_int (j + 150 * 2 ^ 45) :: real) / 2 ^ 45 + 50 =
        of_int (j + 4 * (50 * 2 ^ 45)) / 2 ^ 45"
      by simp
    have g4: "dbl (of_int (j + 4 * (50 * 2 ^ 45)) / 2 ^ 45) =
        of_int (rne (of_int (j + 4 * (50 * 2 ^ 45)) / 2)) / 2 ^ 44"
      using jb by (intro grid8_round) simp_all
    have b: "\<bar>(of_int (j + 150 * 2 ^ 45) :: real) / 2 ^ 45\<bar> \<le> 512"
      using rj by (simp add: field_simps abs_if)
    have "dbl (of_int (j + 150 * 2 ^ 45) / 2 ^ 45 + 50) = of_int (i + 2 * (50 * 2 ^ 45)) / 2 ^ 44"
      unfolding e4 g4 rne_half_shift i_def by (rule refl)
    then show ?thesis unfolding e3 g3 using b by blast
  next
    case False
    have e3: "(of_int (j + 100 * 2 ^ 45) :: real) / 2 ^ 45 + 50 =
        of_int (j + 4 * (75 * 2 ^ 44)) / 2 ^ 45"
      by simp
    have g3: "dbl (of_int (j + 4 * (75 * 2 ^ 44)) / 2 ^ 45) =
        of_int (rne (of_int (j + 4 * (75 * 2 ^ 44)) / 2)) / 2 ^ 44"
      using jb False by (intro grid8_round) simp_all
    have e4: "(of_int (i + 2 * (75 * 2 ^ 44)) :: real) / 2 ^ 44 + 50 =
        of_int (i + 2 * (50 * 2 ^ 45)) / 2 ^ 44"
      by simp
    have g4: "dbl (of_int (i + 2 * (50 * 2 ^ 45)) / 2 ^ 44) = of_int (i + 2 * (50 * 2 ^ 45)) / 2 ^ 44"
      using ib by (intro grid8_exact) simp_all
    have b: "\<bar>(of_int (i + 2 * (75 * 2 ^ 44)) :: real) / 2 ^ 44\<bar> \<le> 512"
      using ri by (simp add: field_simps abs_if)
    have 3: "dbl (of_int (j + 100 * 2 ^ 45) / 2 ^ 45 + 50) = of_int (i + 2 * (75 * 2 ^ 44)) / 2 ^ 44"
      unfolding e3 g3 rne_half_shift i_def by (rule refl)
    have "dbl (of_int (i + 2 * (75 * 2 ^ 44)) / 2 ^ 44 + 50) = of_int (i + 2 * (50 * 2 ^ 45)) / 2 ^ 44"
      unfolding e4 g4 by (rule refl)
    then show ?thesis unfolding 3 using b by blast
  qed
  have a5: "dbl (of_int (i + 2 * (50 * 2 ^ 45)) / 2 ^ 44 + 50) = of_int (i + 2 * (125 * 2 ^ 44)) / 2 ^ 44"
  proof -
    have e: "(of_int (i + 2 * (50 * 2 ^ 45)) :: real) / 2 ^ 44 + 50 =
        of_int (i + 2 * (125 * 2 ^ 44)) / 2 ^ 44"
      by simp
    have g: "dbl (of_int (i + 2 * (125 * 2 ^ 44)) / 2 ^ 44) = of_int (i + 2 * (125 * 2 ^ 44)) / 2 ^ 44"
      using ib by (intro grid8_exact) simp_all
    show ?thesis unfolding e g by (rule refl)
  qed
  have d: "dbl (of_int k / 2 ^ 46 + 250) = of_int (i + 2 * (125 * 2 ^ 44)) / 2 ^ 44"
  proof -
    have e: "(of_int k :: real) / 2 ^ 46 + 250 = of_int (k + 8 * (125 * 2 ^ 44)) / 2 ^ 46"
      by simp
    have g: "dbl (of_int (k + 8 * (125 * 2 ^ 44)) / 2 ^ 46) =
        of_int (rne (of_int (k + 8 * (125 * 2 ^ 44)) / 4)) / 2 ^ 44"
      using assms by (intro grid8_round4) simp_all
    show ?thesis unfolding e g rne_quarter_shift i4 by (rule refl)
  qed
  have b1: "\<bar>(of_int (j + 2 * (25 * 2 ^ 45)) :: real) / 2 ^ 45\<bar> \<le> 512"
    using rj by (simp add: field_simps abs_if)
  have b2: "\<bar>(of_int (j + 100 * 2 ^ 45) :: real) / 2 ^ 45\<bar> \<le> 512"
    using rj by (simp add: field_simps abs_if)
  have b4: "\<bar>(of_int (i + 2 * (50 * 2 ^ 45)) :: real) / 2 ^ 44\<bar> \<le> 512"
    using ri by (simp add: field_simps abs_if)
  have b5: "\<bar>(of_int (i + 2 * (125 * 2 ^ 44)) :: real) / 2 ^ 44\<bar> \<le> 512"
    using ri by (simp add: field_simps abs_if)
  from a34 obtain a3 where a3: "dbl (of_int (j + 100 * 2 ^ 45) / 2 ^ 45 + 50) = a3"
    "\<bar>a3\<bar> \<le> 512" "dbl (a3 + 50) = of_int (i + 2 * (50 * 2 ^ 45)) / 2 ^ 44"
    by blast
  show ?thesis
    using a1 b1 a2 b2 a3 b4 a5 b5 unfolding d by blast
qed

lemma fl_Num_512: "\<bar>dbl x\<bar> \<le> 512 \<Longrightarrow> fl x = Num (dbl x)"
proof -
  assume "\<bar>dbl x\<bar> \<le> 512"
  also have "(512::real) = 2 powi 9" by simp
  also have "\<dots> < 2 powi 1024" by (rule powi2_strict) simp
  finally show ?thesis by (rule fl_Num)
qed

lemma five_ubi_additions:
  assumes "80 * 2 ^ 46 \<le> k" and "k \<le> 120 * 2 ^ 46"
  shows "((\<lambda>x. js_add x (Num 50)) ^^ 5) (Num (of_int k / 2 ^ 46)) =
     js_add (Num (of_int k / 2 ^ 46)) (Num 250)"
proof -
  from five_roundings [OF assms] obtain a1 a2 a3 a4 where
    a: "dbl (of_int k / 2 ^ 46 + 50) = a1" "\<bar>a1\<bar> \<le> 512"
      "dbl (a1 + 50) = a2" "\<bar>a2\<bar> \<le> 512"
      "dbl (a2 + 50) = a3" "\<bar>a3\<bar> \<le> 512"
      "dbl (a3 + 50) = a4" "\<bar>a4\<bar> \<le> 512"
      "dbl (a4 + 50) = dbl (of_int k / 2 ^ 46 + 250)"
      "\<bar>dbl (of_int k / 2 ^ 46 + 250)\<bar> \<le> 512"
    by blast
  have 1: "js_add (Num (of_int k / 2 ^ 46)) (Num 50) = Num a1"
    using a(1,2) fl_Num_512 [of "of_int k / 2 ^ 46 + 50"] by simp
  have 2: "js_add (Num a1) (Num 50) = Num a2"
    using a(3,4) fl_Num_512 [of "a1 + 50"] by simp
  have 3: "js_add (Num a2) (Num 50) = Num a3"
    using a(5,6) fl_Num_512 [of "a2 + 50"] by simp
  have 4: "js_add (Num a3) (Num 50) = Num a4"
    using a(7,8) fl_Num_512 [of "a3 + 50"] by simp
  have 5: "js_add (Num a4) (Num 50) = Num (dbl (of_int k / 2 ^ 46 + 250))"
    using a(9,10) fl_Num_512 [of "a4 + 50"] by simp
  have 6: "js_add (Num (of_int k / 2 ^ 46)) (Num 250) = Num (dbl (of_int k / 2 ^ 46 + 250))"
    using a(10) fl_Num_512 [of "of_int k / 2 ^ 46 + 250"] by simp
  have "((\<lambda>x. js_add x (Num 50)) ^^ 5) (Num (of_int k / 2 ^ 46)) =
      js_add (js_add (js_add (js_add (js_add (Num (of_int k / 2 ^ 46)) (Num 50)) (Num 50))
        (Num 50)) (Num 50)) (Num 50)"
    by (simp add: eval_nat_numeral)
  then show ?thesis unfolding 1 2 3 4 5 6 by simp
qed

lemma initial_incomes:
  assumes "\<forall>k. 0 \<le> rnd k \<and> rnd k < 1"
  shows "list_all (\<lambda>a. \<exists>m. income a = Num (of_int m / 2 ^ 46) \<and> 80 * 2 ^ 46 \<le> m \<and>
     m \<le> 120 * 2 ^ 46) (make_workers rnd k js)"
proof (induction js arbitrary: k)
  case Nil
  show ?case by simp
next
  case (Cons i js)
  have "0 \<le> rnd (k + 1)" and "rnd (k + 1) < 1" using assms by simp_all
  from initial_income [OF this] Cons.IH [of "k + 2"] show ?case by simp
qed

text \<open>
  Claim C8. After the initialization with \<open>nAgents = 100\<close> and \<open>ubi = 50\<close> (no compute
  tax, AGI not deployed) and five steps, the workers are the same 80 agents, with the
  ids 0 to 79, and the income of each is its initial income plus 250, the sum as the
  code computes it when it adds 250 to the initial income; the history holds one
  sample in each of its sequences, taken at step 5. The draws of \<open>Math.random\<close> are
  numbers from 0 to below 1.
\<close>

theorem ubi_scenario_five_steps:
  "((\<forall>k. 0 \<le> rnd k \<and> rnd k < 1) \<longrightarrow>
     map income (filter (\<lambda>a. type_agent a = Worker) (agents (runSteps 5 (ubi_scenario b rnd)))) =
     map (\<lambda>a. js_add (income a) (Num 250))
       (filter (\<lambda>a. type_agent a = Worker) (agents (ubi_scenario b rnd)))) \<and>
   map id_agent (filter (\<lambda>a. type_agent a = Worker) (agents (runSteps 5 (ubi_scenario b rnd)))) =
     [0..79] \<and>
   map id_agent (filter (\<lambda>a. type_agent a = Worker) (agents (ubi_scenario b rnd))) = [0..79] \<and>
   ubi (params (ubi_scenario b rnd)) = 50 \<and>
   computeTax (params (ubi_scenario b rnd)) = 0 \<and>
   nAgents (params (ubi_scenario b rnd)) = 100 \<and>
   \<not> agiDeployed (ubi_scenario b rnd) \<and>
   steps (history (runSteps 5 (ubi_scenario b rnd))) = [5] \<and>
   length (gini (history (runSteps 5 (ubi_scenario b rnd)))) = 1 \<and>
   length (velocity (history (runSteps 5 (ubi_scenario b rnd)))) = 1 \<and>
   length (workerHappiness (history (runSteps 5 (ubi_scenario b rnd)))) = 1 \<and>
   length (capitalistHappiness (history (runSteps 5 (ubi_scenario b rnd)))) = 1 \<and>
   handleStep \<lparr> req_steps = Some 5, req_deployAGI = False \<rparr> (Some (ubi_scenario b rnd)) =
     Inr (runSteps 5 (ubi_scenario b rnd))"
proof -
  let ?s = "ubi_scenario b rnd"
  let ?W = "\<lambda>a. type_agent a = Worker"
  have u: "0 < ubi (params ?s)" and d: "\<not> agiDeployed ?s"
    and n: "list_all (\<lambda>a. type_agent a = Worker \<longrightarrow> strategy a = Normal) (agents ?s)"
    by (simp_all add: ubi_scenario_fields normal_initAgents)
  have ws: "filter ?W (agents ?s) = make_workers rnd 0 (ids_below 0 80)"
    by (simp add: ubi_scenario_fields workers_initAgents workers_bound_100)
  have ids: "map id_agent (filter ?W (agents ?s)) = [0..79]"
    unfolding ws by (simp add: ids_make_workers ids_below_def del: upto_rec_numeral)
  note five = workers_runSteps_ubi [OF u d n, of 5]
  have i: "map id_agent (filter ?W (agents (runSteps 5 ?s))) = [0..79]"
    using five ids by simp
  have w: "map income (filter ?W (agents (runSteps 5 ?s))) =
      map (\<lambda>a. js_add (income a) (Num 250)) (filter ?W (agents ?s))"
    if r: "\<forall>k. 0 \<le> rnd k \<and> rnd k < 1"
  proof -
    have "((\<lambda>x. js_add x (Num 50)) ^^ 5) (income a) = js_add (income a) (Num 250)"
      if "a \<in> set (filter ?W (agents ?s))" for a
    proof -
      from that initial_incomes [OF r, of 0 "ids_below 0 80"] obtain m
        where m: "income a = Num (of_int m / 2 ^ 46)" "80 * 2 ^ 46 \<le> m" "m \<le> 120 * 2 ^ 46"
        unfolding ws list_all_iff by blast
      show ?thesis unfolding m(1) by (rule five_ubi_additions [OF m(2,3)])
    qed
    then have "map ((\<lambda>x. js_add x (Num 50)) ^^ 5) (map income (filter ?W (agents ?s))) =
        map (\<lambda>a. js_add (income a) (Num 250)) (filter ?W (agents ?s))"
      by (simp add: o_def)
    then show ?thesis using five by (simp add: ubi_scenario_fields)
  qed
  have h: "steps (history (runSteps 5 ?s)) = [5]"
    "length (gini (history (runSteps 5 ?s))) = 1"
    "length (velocity (history (runSteps 5 ?s))) = 1"
    "length (workerHappiness (history (runSteps 5 ?s))) = 1"
    "length (capitalistHappiness (history (runSteps 5 ?s))) = 1"
    by (simp_all add: five_steps_history ubi_scenario_fields)
  have r: "handleStep \<lparr> req_steps = Some 5, req_deployAGI = False \<rparr> (Some ?s) =
      Inr (runSteps 5 ?s)"
    by (simp add: handleStep_def requestDeploy_def step_count_def or_default_def)
  show ?thesis
    using w i ids h r by (simp add: ubi_scenario_fields del: upto_rec_numeral)
qed

lemma incomes_even_draws:
  "map income (make_workers (\<lambda>k. 1 / 2) k js) = replicate (length js) (Num 100)"
  using fl_int [of 100] by (induction js arbitrary: k) (simp_all add: js_sub_def)

theorem ubi_scenario_five_steps_witness:
  "map income (filter (\<lambda>a. type_agent a = Worker)
     (agents (ubi_scenario empty_request (\<lambda>k. 1 / 2)))) = replicate 80 (Num 100) \<and>
   map income (filter (\<lambda>a. type_agent a = Worker)
     (agents (runSteps 5 (ubi_scenario empty_request (\<lambda>k. 1 / 2))))) = replicate 80 (Num 350)"
proof -
  let ?W = "\<lambda>a. type_agent a = Worker"
  let ?s = "ubi_scenario empty_request (\<lambda>k. 1 / 2)"
  have r: "\<forall>k::nat. 0 \<le> (1 / 2 :: real) \<and> (1 / 2 :: real) < 1" by simp
  have i: "map income (filter ?W (agents ?s)) = replicate 80 (Num 100)"
    by (simp add: ubi_scenario_fields workers_initAgents workers_bound_100 incomes_even_draws
        ids_below_def)
  have "map income (filter ?W (agents (runSteps 5 ?s))) =
      map (\<lambda>a. js_add (income a) (Num 250)) (filter ?W (agents ?s))"
    using ubi_scenario_five_steps [of "\<lambda>k. 1 / 2" empty_request] r by blast
  also have "\<dots> = map (\<lambda>x. js_add x (Num 250)) (map income (filter ?W (agents ?s)))"
    by (simp add: o_def)
  also have "\<dots> = replicate 80 (Num 350)"
    unfolding i using fl_int [of 350] by simp
  finally show ?thesis using i by simp
qed

end
